theory Spec2Isabelle
  imports Main "HOL-Library.Sublist" "HOL-Library.Word"
begin

unbundle bit_operations_syntax

section \<open>Python's string and regular-expression primitives\<close>

text \<open>
  The two scripts patch the text of \<^verbatim>\<open>project.pbxproj\<close> with \<^verbatim>\<open>re.search\<close>,
  \<^verbatim>\<open>re.sub\<close>, \<^verbatim>\<open>str.replace\<close> and the substring test \<^verbatim>\<open>in\<close>. A document is a
  \<^typ>\<open>string\<close>: a list of 8-bit characters (code points below 256).
\<close>

subsection \<open>Substring test and \<^verbatim>\<open>str.replace\<close>\<close>

text \<open>\<^verbatim>\<open>p in s\<close>: the needle \<open>p\<close> occurs in \<open>s\<close> as a contiguous block.\<close>

fun contains :: "string \<Rightarrow> string \<Rightarrow> bool" where
  "contains p [] = (p = [])"
| "contains p (c # cs) = (prefix p (c # cs) \<or> contains p cs)"

text \<open>
  \<^verbatim>\<open>s.replace(old, new)\<close> with no count: a scan from the left that replaces every
  occurrence of \<open>old\<close> it meets and resumes after the replaced block, so occurrences
  that overlap an earlier replaced one are skipped. \<open>replace_scan\<close> is the scan for a
  non-empty \<open>old\<close>; for the empty \<open>old\<close> Python puts \<open>new\<close> before every character
  and at the end.
\<close>

function replace_scan :: "string \<Rightarrow> string \<Rightarrow> string \<Rightarrow> string" where
  "replace_scan old new [] = []"
| "replace_scan old new (c # cs) =
     (if old \<noteq> [] \<and> prefix old (c # cs)
      then new @ replace_scan old new (drop (length old) (c # cs))
      else c # replace_scan old new cs)"
  by pat_completeness auto
termination
  by (relation "measure (\<lambda>(old, new, s). length s)") auto

definition str_replace :: "string \<Rightarrow> string \<Rightarrow> string \<Rightarrow> string" where
  "str_replace old new s =
     (if old = [] then new @ concat (map (\<lambda>c. c # new) s) else replace_scan old new s)"

text \<open>\<^verbatim>\<open>s[a:b]\<close> for \<open>0 \<le> a \<le> b\<close>.\<close>

definition slice :: "string \<Rightarrow> nat \<Rightarrow> nat \<Rightarrow> string" where
  "slice s a b = take (b - a) (drop a s)"

subsection \<open>Regular expressions: a backtracking matcher\<close>

text \<open>
  The patterns of the scripts are sequences of single characters and of repetitions of
  a one-character class, with one capturing group. \<open>Chr c\<close> is the literal \<open>c\<close>,
  \<open>NotChr c\<close> the class \<^verbatim>\<open>[^c]\<close>, \<open>Space\<close> is \<^verbatim>\<open>\s\<close> and \<open>AnyChar\<close> is \<^verbatim>\<open>.\<close>
  under \<^verbatim>\<open>re.DOTALL\<close>. \<open>Plus\<close> and \<open>Star\<close> are the greedy \<^verbatim>\<open>+\<close> and \<^verbatim>\<open>*\<close>,
  \<open>LazyStar\<close> is \<^verbatim>\<open>*?\<close>; \<open>GroupOpen\<close> and \<open>GroupClose\<close> are the parentheses of
  group 1.
\<close>

datatype atom = Chr char | NotChr char | Space | AnyChar

datatype item = One atom | Plus atom | Star atom | LazyStar atom | GroupOpen | GroupClose

type_synonym regex = "item list"

text \<open>
  \<^verbatim>\<open>\s\<close> in a \<^verbatim>\<open>str\<close> pattern is Unicode white space; below 256 these are the
  code points 9 to 13, 28 to 32, 133 and 160.
\<close>

definition is_space :: "char \<Rightarrow> bool" where
  "is_space c =
     (c \<in> set [CHR 0x09, CHR 0x0A, CHR 0x0B, CHR 0x0C, CHR 0x0D, CHR 0x1C, CHR 0x1D,
               CHR 0x1E, CHR 0x1F, CHR 0x20, CHR 0x85, CHR 0xA0])"

fun atom_ok :: "atom \<Rightarrow> char \<Rightarrow> bool" where
  "atom_ok (Chr x) c = (c = x)"
| "atom_ok (NotChr x) c = (c \<noteq> x)"
| "atom_ok Space c = is_space c"
| "atom_ok AnyChar c = True"

text \<open>
  \<open>rmatch r s p g\<close> matches the items \<open>r\<close> at the front of \<open>s\<close>; \<open>p\<close> counts the
  characters the match has taken so far and \<open>g\<close> is the span of group 1 so far. It returns the end
  offset of the match and the span of group 1, taking the alternatives in the order of
  a backtracking engine: a greedy repetition tries one more character before it tries
  the rest of the pattern, a lazy one tries the rest of the pattern first.
\<close>

fun rmatch :: "regex \<Rightarrow> string \<Rightarrow> nat \<Rightarrow> nat \<times> nat \<Rightarrow> (nat \<times> nat \<times> nat) option" where
  "rmatch [] s p g = Some (p, g)"
| "rmatch (GroupOpen # r) s p (a, b) = rmatch r s p (p, b)"
| "rmatch (GroupClose # r) s p (a, b) = rmatch r s p (a, p)"
| "rmatch (One x # r) [] p g = None"
| "rmatch (One x # r) (c # cs) p g =
     (if atom_ok x c then rmatch r cs (Suc p) g else None)"
| "rmatch (Plus x # r) [] p g = None"
| "rmatch (Plus x # r) (c # cs) p g =
     (if atom_ok x c then rmatch (Star x # r) cs (Suc p) g else None)"
| "rmatch (Star x # r) [] p g = rmatch r [] p g"
| "rmatch (Star x # r) (c # cs) p g =
     (if atom_ok x c
      then (case rmatch (Star x # r) cs (Suc p) g of
              Some m \<Rightarrow> Some m
            | None \<Rightarrow> rmatch r (c # cs) p g)
      else rmatch r (c # cs) p g)"
| "rmatch (LazyStar x # r) [] p g = rmatch r [] p g"
| "rmatch (LazyStar x # r) (c # cs) p g =
     (case rmatch r (c # cs) p g of
        Some m \<Rightarrow> Some m
      | None \<Rightarrow> if atom_ok x c then rmatch (LazyStar x # r) cs (Suc p) g else None)"

text \<open>The match object: the span of the whole match and the span of group 1.\<close>

record re_match =
  m_start :: nat
  m_end :: nat
  g1_start :: nat
  g1_end :: nat

text \<open>
  \<^verbatim>\<open>re.search\<close>: the match at the leftmost offset that has one. \<open>s\<close> is the
  rest of the subject from offset \<open>i\<close> on; the spans of the match object are offsets
  of the subject.
\<close>

fun search_from :: "regex \<Rightarrow> string \<Rightarrow> nat \<Rightarrow> re_match option" where
  "search_from r [] i =
     (case rmatch r [] 0 (0, 0) of
        Some (e, a, b) \<Rightarrow>
          Some \<lparr>m_start = i, m_end = i + e, g1_start = i + a, g1_end = i + b\<rparr>
      | None \<Rightarrow> None)"
| "search_from r (c # cs) i =
     (case rmatch r (c # cs) 0 (0, 0) of
        Some (e, a, b) \<Rightarrow>
          Some \<lparr>m_start = i, m_end = i + e, g1_start = i + a, g1_end = i + b\<rparr>
      | None \<Rightarrow> search_from r cs (Suc i))"

definition re_search :: "regex \<Rightarrow> string \<Rightarrow> re_match option" where
  "re_search r s = search_from r s 0"

text \<open>\<^verbatim>\<open>m.group(1)\<close>, for a match \<open>m\<close> in the subject \<open>s\<close>.\<close>

definition group1 :: "string \<Rightarrow> re_match \<Rightarrow> string" where
  "group1 s m = slice s (g1_start m) (g1_end m)"

text \<open>
  A replacement template is a sequence of the reference \<^verbatim>\<open>\1\<close> and of literal text
  (with \<^verbatim>\<open>\n\<close> and \<^verbatim>\<open>\t\<close> already read as newline and tab, as \<^verbatim>\<open>re.sub\<close>
  does).
\<close>

datatype tpart = Group1 | Txt string

fun expand :: "tpart list \<Rightarrow> string \<Rightarrow> nat \<Rightarrow> nat \<Rightarrow> string" where
  "expand [] s a b = []"
| "expand (Group1 # t) s a b = slice s a b @ expand t s a b"
| "expand (Txt x # t) s a b = x @ expand t s a b"

text \<open>
  \<^verbatim>\<open>re.sub(pattern, template, s)\<close>: every match found by a scan from the left is
  replaced by the expanded template and the scan resumes at the end of the match. A
  match of length 0 is replaced and the scan moves on by one character; none of the
  patterns of the scripts has such a match.
\<close>

function re_sub :: "regex \<Rightarrow> tpart list \<Rightarrow> string \<Rightarrow> string" where
  "re_sub r t [] =
     (case rmatch r [] 0 (0, 0) of
        Some (e, a, b) \<Rightarrow> expand t [] a b
      | None \<Rightarrow> [])"
| "re_sub r t (c # cs) =
     (case rmatch r (c # cs) 0 (0, 0) of
        None \<Rightarrow> c # re_sub r t cs
      | Some (e, a, b) \<Rightarrow>
          if e = 0 then expand t (c # cs) a b @ c # re_sub r t cs
          else expand t (c # cs) a b @ re_sub r t (drop e (c # cs)))"
  by pat_completeness auto
termination
  by (relation "measure (\<lambda>(r, t, s). length s)") auto

section \<open>The generated identifiers\<close>

text \<open>
  \<^verbatim>\<open>uuid.uuid4().hex[:24].upper()\<close>: the UUID is a random 128-bit number, taken here
  as a parameter; \<^verbatim>\<open>hex\<close> is its 32 lowercase hexadecimal digits, of which the first
  24 are kept and put in upper case.
\<close>

definition hex_digit :: "nat \<Rightarrow> char" where
  "hex_digit n = ''0123456789abcdef'' ! n"

definition uuid_hex :: "128 word \<Rightarrow> string" where
  "uuid_hex u = map (\<lambda>i. hex_digit (unat (drop_bit (4 * (31 - i)) u AND 15))) [0..<32]"

text \<open>\<^verbatim>\<open>str.upper\<close> on one character of the ASCII range.\<close>

definition upper_char :: "char \<Rightarrow> char" where
  "upper_char c =
     (let n = (of_char c :: nat) in if 97 \<le> n \<and> n \<le> 122 then char_of (n - 32) else c)"

definition token :: "128 word \<Rightarrow> string" where
  "token u = map upper_char (take 24 (uuid_hex u))"

section \<open>The project file and the console\<close>

text \<open>
  The state a script acts on: the text of the project file on disk, the lines printed
  so far, and the log of the texts written to the file, in order. Both scripts suppose
  that the file exists and can be read.
\<close>

record world =
  disk :: string
  console :: "string list"
  writes :: "string list"

definition nl :: char where "nl = CHR 0x0A"
definition tab :: char where "tab = CHR 0x09"
definition dquote :: char where "dquote = CHR 0x22"

text \<open>A pattern that is literal text.\<close>

definition lit :: "string \<Rightarrow> regex" where
  "lit s = map (\<lambda>c. One (Chr c)) s"

section \<open>\<^verbatim>\<open>add_export_service.py\<close>\<close>

definition services_pattern :: regex where
  "services_pattern =
     [GroupOpen] @ lit ''/* Services */ = {'' @ [Plus (NotChr (CHR ''}''))] @
     lit ''children = ('' @ [Plus (NotChr (CHR '')'')), GroupClose]"

definition build_file_section_pattern :: regex where
  "build_file_section_pattern =
     [GroupOpen] @ lit ''/* Begin PBXBuildFile section */'' @ [GroupClose]"

definition file_ref_section_pattern :: regex where
  "file_ref_section_pattern =
     [GroupOpen] @ lit ''/* Begin PBXFileReference section */'' @ [GroupClose]"

definition sources_phase_pattern :: regex where
  "sources_phase_pattern =
     [GroupOpen] @ lit ''/* Sources */ = {'' @ [Plus (NotChr (CHR ''}''))] @
     lit ''files = ('' @ [Plus (NotChr (CHR '')'')), GroupClose]"

text \<open>The four texts the script inserts.\<close>

definition services_child :: "string \<Rightarrow> string" where
  "services_child file_ref_uuid =
     [nl, tab, tab, tab, tab] @ file_ref_uuid @ '' /* ExportService.swift */,''"

definition build_file_entry :: "string \<Rightarrow> string \<Rightarrow> string" where
  "build_file_entry file_ref_uuid build_file_uuid =
     [nl, tab, tab] @ build_file_uuid @
     '' /* ExportService.swift in Sources */ = {isa = PBXBuildFile; fileRef = '' @
     file_ref_uuid @ '' /* ExportService.swift */; };''"

definition file_ref_entry :: "string \<Rightarrow> string" where
  "file_ref_entry file_ref_uuid =
     [nl, tab, tab] @ file_ref_uuid @
     '' /* ExportService.swift */ = {isa = PBXFileReference; lastKnownFileType = sourcecode.swift; path = ExportService.swift; sourceTree = '' @
     [dquote] @ ''<group>'' @ [dquote] @ ''; };''"

definition sources_child :: "string \<Rightarrow> string" where
  "sources_child build_file_uuid =
     [nl, tab, tab, tab, tab] @ build_file_uuid @ '' /* ExportService.swift in Sources */,''"

text \<open>Add the file reference to the children of the Services group.\<close>

definition add_services_child :: "string \<Rightarrow> string \<Rightarrow> re_match \<Rightarrow> string" where
  "add_services_child file_ref_uuid content services_match =
     (let services_replacement = group1 content services_match @ services_child file_ref_uuid
      in str_replace (group1 content services_match) services_replacement content)"

text \<open>Find the PBXBuildFile section and add the build file entry.\<close>

definition add_build_file :: "string \<Rightarrow> string \<Rightarrow> string \<Rightarrow> string" where
  "add_build_file file_ref_uuid build_file_uuid content =
     (case re_search build_file_section_pattern content of
        None \<Rightarrow> content
      | Some build_file_match \<Rightarrow>
          str_replace (group1 content build_file_match)
            (group1 content build_file_match @ build_file_entry file_ref_uuid build_file_uuid)
            content)"

text \<open>Find the PBXFileReference section and add the file reference entry.\<close>

definition add_file_ref :: "string \<Rightarrow> string \<Rightarrow> string" where
  "add_file_ref file_ref_uuid content =
     (case re_search file_ref_section_pattern content of
        None \<Rightarrow> content
      | Some file_ref_match \<Rightarrow>
          str_replace (group1 content file_ref_match)
            (group1 content file_ref_match @ file_ref_entry file_ref_uuid) content)"

text \<open>Find the Sources build phase and add the build file to its files.\<close>

definition add_sources_child :: "string \<Rightarrow> string \<Rightarrow> string" where
  "add_sources_child build_file_uuid content =
     (case re_search sources_phase_pattern content of
        None \<Rightarrow> content
      | Some sources_match \<Rightarrow>
          (let sources_replacement = group1 content sources_match @ sources_child build_file_uuid
           in str_replace (group1 content sources_match) sources_replacement content))"

text \<open>The document the script writes, once the Services group has been found.\<close>

definition export_patch :: "string \<Rightarrow> string \<Rightarrow> string \<Rightarrow> re_match \<Rightarrow> string" where
  "export_patch file_ref_uuid build_file_uuid content services_match =
     add_sources_child build_file_uuid
       (add_file_ref file_ref_uuid
         (add_build_file file_ref_uuid build_file_uuid
           (add_services_child file_ref_uuid content services_match)))"

text \<open>
  The script: it reads the file, draws the two identifiers, stops with status 1 when
  the Services group is not found, and otherwise applies the four insertions, writes
  the file and prints three lines. The result is the exit status and the new state.
\<close>

definition add_export_service :: "128 word \<Rightarrow> 128 word \<Rightarrow> world \<Rightarrow> nat \<times> world" where
  "add_export_service u1 u2 w =
     (let content = disk w;
          file_ref_uuid = token u1;
          build_file_uuid = token u2
      in case re_search services_pattern content of
           None \<Rightarrow> (1, w\<lparr>console := console w @ [''ERROR: Could not find Services group'']\<rparr>)
         | Some services_match \<Rightarrow>
             (let content = export_patch file_ref_uuid build_file_uuid content services_match
              in (0, w\<lparr>disk := content,
                        writes := writes w @ [content],
                        console := console w @
                          [''Added ExportService.swift to Xcode project'',
                           ''File Reference UUID: '' @ file_ref_uuid,
                           ''Build File UUID: '' @ build_file_uuid]\<rparr>)))"

section \<open>\<^verbatim>\<open>integrate_xcconfig.py\<close>\<close>

definition debug_xcconfig_ref :: string where "debug_xcconfig_ref = ''A10000F1000''"
definition release_xcconfig_ref :: string where "release_xcconfig_ref = ''A10000F2000''"
definition config_group_ref :: string where "config_group_ref = ''A10000F3000''"

definition file_ref_section_re :: regex where
  "file_ref_section_re =
     lit ''/* Begin PBXFileReference section */'' @ [GroupOpen, LazyStar AnyChar, GroupClose] @
     lit ''/* End PBXFileReference section */''"

definition group_section_re :: regex where
  "group_section_re =
     lit ''/* Begin PBXGroup section */'' @ [GroupOpen, LazyStar AnyChar, GroupClose] @
     lit ''/* End PBXGroup section */''"

definition root_group_pattern :: regex where
  "root_group_pattern =
     [GroupOpen] @ lit ''A10000A0000 = {'' @ [Star Space] @ lit ''isa = PBXGroup;'' @
     [Star Space] @ lit ''children = ('' @ [Star Space, GroupClose]"

definition debug_config_pattern :: regex where
  "debug_config_pattern =
     [GroupOpen] @ lit ''A1000180000 /* Debug */ = {'' @ [Star Space] @
     lit ''isa = XCBuildConfiguration;'' @ [GroupClose]"

definition release_config_pattern :: regex where
  "release_config_pattern =
     [GroupOpen] @ lit ''A1000190000 /* Release */ = {'' @ [Star Space] @
     lit ''isa = XCBuildConfiguration;'' @ [GroupClose]"

definition new_refs :: string where
  "new_refs =
     [tab, tab] @ debug_xcconfig_ref @
     '' /* Debug.xcconfig */ = {isa = PBXFileReference; lastKnownFileType = text.xcconfig; path = Debug.xcconfig; sourceTree = '' @
     [dquote] @ ''<group>'' @ [dquote] @ ''; };'' @ [nl] @
     [tab, tab] @ release_xcconfig_ref @
     '' /* Release.xcconfig */ = {isa = PBXFileReference; lastKnownFileType = text.xcconfig; path = Release.xcconfig; sourceTree = '' @
     [dquote] @ ''<group>'' @ [dquote] @ ''; };'' @ [nl]"

definition config_group :: string where
  "config_group =
     [tab, tab] @ config_group_ref @ '' /* Config */ = {'' @ [nl] @
     [tab, tab, tab] @ ''isa = PBXGroup;'' @ [nl] @
     [tab, tab, tab] @ ''children = ('' @ [nl] @
     [tab, tab, tab, tab] @ debug_xcconfig_ref @ '' /* Debug.xcconfig */,'' @ [nl] @
     [tab, tab, tab, tab] @ release_xcconfig_ref @ '' /* Release.xcconfig */,'' @ [nl] @
     [tab, tab, tab] @ '');'' @ [nl] @
     [tab, tab, tab] @ ''path = Config;'' @ [nl] @
     [tab, tab, tab] @ ''sourceTree = '' @ [dquote] @ ''<group>'' @ [dquote] @ '';'' @ [nl] @
     [tab, tab] @ ''};'' @ [nl]"

definition root_group_replacement :: "tpart list" where
  "root_group_replacement =
     [Group1, Txt (config_group_ref @ '' /* Config */,'' @ [nl, tab, tab, tab, tab])]"

definition debug_config_replacement :: "tpart list" where
  "debug_config_replacement =
     [Group1, Txt ([nl, tab, tab, tab] @ ''baseConfigurationReference = '' @
                   debug_xcconfig_ref @ '' /* Debug.xcconfig */;'')]"

definition release_config_replacement :: "tpart list" where
  "release_config_replacement =
     [Group1, Txt ([nl, tab, tab, tab] @ ''baseConfigurationReference = '' @
                   release_xcconfig_ref @ '' /* Release.xcconfig */;'')]"

text \<open>Step 1: add the file references of the two xcconfig files.\<close>

definition add_file_references :: "string \<Rightarrow> string" where
  "add_file_references content =
     (case re_search file_ref_section_re content of
        None \<Rightarrow> content
      | Some file_ref_section \<Rightarrow>
          (let file_refs = group1 content file_ref_section
           in if \<not> contains ''Debug.xcconfig'' file_refs
              then str_replace ''/* End PBXFileReference section */''
                     (new_refs @ ''/* End PBXFileReference section */'') content
              else content))"

text \<open>Step 2: add the Config group, and make it a child of the root group.\<close>

definition add_config_group :: "string \<Rightarrow> string" where
  "add_config_group content =
     (case re_search group_section_re content of
        None \<Rightarrow> content
      | Some group_section \<Rightarrow>
          (let groups = group1 content group_section
           in if \<not> contains config_group_ref groups
              then (let content = str_replace ''/* End PBXGroup section */''
                                    (config_group @ ''/* End PBXGroup section */'') content
                    in re_sub root_group_pattern root_group_replacement content)
              else content))"

text \<open>Step 3: assign the xcconfig files to the Debug and Release configurations.\<close>

definition assign_xcconfigs :: "string \<Rightarrow> string" where
  "assign_xcconfigs content =
     (let content = re_sub debug_config_pattern debug_config_replacement content
      in re_sub release_config_pattern release_config_replacement content)"

definition integrate_patch :: "string \<Rightarrow> string" where
  "integrate_patch content = assign_xcconfigs (add_config_group (add_file_references content))"


section \<open>Notions used to state the properties\<close>





inductive patched :: "string set \<Rightarrow> string \<Rightarrow> string \<Rightarrow> bool" for B s where
  same: "patched B s s"
| splice: "patched B s (u @ v) \<Longrightarrow> b \<in> B \<Longrightarrow> patched B s (u @ b @ v)"

fun closes :: "regex \<Rightarrow> bool" where
  "closes [] = False"
| "closes (GroupClose # r) = (r = [])"
| "closes (GroupOpen # r) = False"
| "closes (x # r) = closes r"

text \<open>
  \<open>occurrences p s\<close>: the offsets of \<open>s\<close> at which the text \<open>p\<close> occurs, in
  increasing order.
\<close>

fun occurrences_from :: "string \<Rightarrow> string \<Rightarrow> nat \<Rightarrow> nat list" where
  "occurrences_from p [] i = (if p = [] then [i] else [])"
| "occurrences_from p (c # cs) i =
     (if prefix p (c # cs) then i # occurrences_from p cs (Suc i)
      else occurrences_from p cs (Suc i))"

definition occurrences :: "string \<Rightarrow> string \<Rightarrow> nat list" where
  "occurrences p s = occurrences_from p s 0"

text \<open>
  The entries of a project file: an entry starts a line, after the tabs, with its
  identifier, followed by \<^verbatim>\<open> = {\<close> or by a comment and \<^verbatim>\<open> = {\<close>.
  \<open>entry_ids\<close> lists the identifiers of the entries of a document, in order.
\<close>

fun split_lines :: "string \<Rightarrow> string list" where
  "split_lines [] = [[]]"
| "split_lines (c # cs) =
     (if c = nl then [] # split_lines cs
      else (case split_lines cs of l # ls \<Rightarrow> (c # l) # ls | [] \<Rightarrow> [[c]]))"

definition entry_id :: "string \<Rightarrow> string option" where
  "entry_id line =
     (let l = dropWhile (\<lambda>c. c = tab) line;
          ident = takeWhile (\<lambda>c. c \<noteq> CHR '' '') l;
          rest = dropWhile (\<lambda>c. c \<noteq> CHR '' '') l
      in if ident \<noteq> [] \<and>
            (prefix '' = {'' rest \<or> (prefix '' /* '' rest \<and> contains ''*/ = {'' rest))
         then Some ident else None)"

definition entry_ids :: "string \<Rightarrow> string list" where
  "entry_ids doc = List.map_filter entry_id (split_lines doc)"





definition debug_base_ref :: string where
  "debug_base_ref =
     [nl, tab, tab, tab] @ ''baseConfigurationReference = A10000F1000 /* Debug.xcconfig */;''"


text \<open>
  A pattern that ends with a greedy repetition of \<^verbatim>\<open>[^c]\<close> and the closing
  parenthesis of the group: its match stops before a \<open>c\<close> or at the end of the text.
\<close>

fun ends_at :: "char \<Rightarrow> regex \<Rightarrow> bool" where
  "ends_at c [] = False"
| "ends_at c (Plus x # r) = (if r = [GroupClose] then x = NotChr c else ends_at c r)"
| "ends_at c (Star x # r) = (if r = [GroupClose] then x = NotChr c else ends_at c r)"
| "ends_at c (i # r) = ends_at c r"

text \<open>The text of the group of \<open>file_ref_section_pattern\<close>.\<close>

definition file_ref_marker :: string where
  "file_ref_marker = ''/* Begin PBXFileReference section */''"

section \<open>Example documents\<close>

text \<open>Small project files and two UUID values, used to instantiate the theorems below.\<close>

definition services_only_doc :: string where
  "services_only_doc =
     ''/* Services */ = { isa = PBXGroup; children = ( A1 /* Api.swift */, ); };''"

definition full_doc :: string where
  "full_doc =
     ''/* Begin PBXBuildFile section */ /* End PBXBuildFile section */ '' @
     ''/* Begin PBXFileReference section */ /* End PBXFileReference section */ '' @
     ''/* Services */ = { isa = PBXGroup; children = ( A1 /* Api.swift */, ); }; '' @
     ''/* Sources */ = { isa = PBXSourcesBuildPhase; files = ( B1 /* Api.swift in Sources */, ); };''"

definition guarded_doc :: string where
  "guarded_doc =
     ''/* Begin PBXFileReference section */ A1 /* Debug.xcconfig */ = {isa = PBXFileReference; }; /* End PBXFileReference section */''"

definition uuid_a :: "128 word" where "uuid_a = 0x0123456789ABCDEF0123456789ABCDEF"
definition uuid_b :: "128 word" where "uuid_b = 0xFEDCBA9876543210FEDCBA9876543210"

definition twice_doc :: string where
  "twice_doc = ''/* Begin PBXBuildFile section */ /* Begin PBXBuildFile section */''"

definition debug_block_doc :: string where
  "debug_block_doc = ''A1000180000 /* Debug */ = { isa = XCBuildConfiguration; };''"







definition no_file_ref_doc :: string where
  "no_file_ref_doc =
     ''/* Begin PBXBuildFile section */ /* End PBXBuildFile section */ '' @
     ''/* Services */ = { isa = PBXGroup; children = ( A1 /* Api.swift */, ); };''"

section \<open>Lemmas on the primitives\<close>






lemma patched_mono: "patched B s t \<Longrightarrow> B \<subseteq> C \<Longrightarrow> patched C s t"
  by (induction rule: patched.induct) (auto intro: patched.intros)









lemma rmatch_bounds: "rmatch r s p g = Some (e, g') \<Longrightarrow> p \<le> e \<and> e \<le> p + length s"
proof (induction r s p g arbitrary: e g' rule: rmatch.induct)
  case (5 x r c cs p g)
  then show ?case by (cases "atom_ok x c") fastforce+
next
  case (7 x r c cs p g)
  then show ?case by (cases "atom_ok x c") fastforce+
next
  case (9 x r c cs p g)
  show ?case
  proof (cases "atom_ok x c")
    case True
    show ?thesis
    proof (cases "rmatch (Star x # r) cs (Suc p) g")
      case None
      with True 9 show ?thesis by simp
    next
      case (Some m)
      with True 9(1)[of e g'] 9(4) show ?thesis by simp
    qed
  next
    case False
    with 9 show ?thesis by simp
  qed
next
  case (11 x r c cs p g)
  show ?case
  proof (cases "rmatch r (c # cs) p g")
    case None
    with 11 show ?thesis by (simp split: if_splits)
  next
    case (Some m)
    with 11 show ?thesis by simp
  qed
qed auto

lemma rmatch_closes:
  "closes r \<Longrightarrow> rmatch r s p g = Some (e, g') \<Longrightarrow> fst g' = fst g \<and> snd g' = e"
proof (induction r s p g arbitrary: e g' rule: rmatch.induct)
  case (9 x r c cs p g)
  show ?case
  proof (cases "atom_ok x c")
    case True
    show ?thesis
    proof (cases "rmatch (Star x # r) cs (Suc p) g")
      case None
      with True 9(2)[OF True None] 9(4,5) show ?thesis by simp
    next
      case (Some m)
      with True 9(1)[OF True] 9(4,5) show ?thesis by simp
    qed
  next
    case False
    with 9(3)[OF False] 9(4,5) show ?thesis by simp
  qed
next
  case (11 x r c cs p g)
  show ?case
  proof (cases "rmatch r (c # cs) p g")
    case None
    with 11(2)[OF None] 11(3,4) show ?thesis by (simp split: if_splits)
  next
    case (Some m)
    with 11(1) 11(3,4) show ?thesis by simp
  qed
qed (simp_all split: if_splits)





declare re_sub.simps [simp del]

lemma rmatch_wrapped:
  assumes "closes r" and "rmatch (GroupOpen # r) s 0 (0, 0) = Some (e, a, b)"
  shows "a = 0 \<and> b = e \<and> e \<le> length s"
proof -
  from assms(2) have "rmatch r s 0 (0, 0) = Some (e, a, b)" by simp
  from rmatch_closes[OF assms(1) this] rmatch_bounds[OF assms(2)] show ?thesis by simp
qed



lemma search_from_Some:
  "search_from r s i = Some m \<Longrightarrow>
   \<exists>k e a b. k \<le> length s \<and> rmatch r (drop k s) 0 (0, 0) = Some (e, a, b) \<and>
     m = \<lparr>m_start = i + k, m_end = i + k + e, g1_start = i + k + a, g1_end = i + k + b\<rparr> \<and>
     (\<forall>j<k. rmatch r (drop j s) 0 (0, 0) = None)"
proof (induction r s i rule: search_from.induct)
  case (1 r i)
  show ?case
  proof (cases "rmatch r [] 0 (0, 0)")
    case None
    with 1 show ?thesis by simp
  next
    case (Some x)
    obtain e a b where x: "x = (e, a, b)" by (cases x)
    with Some 1 have "m = \<lparr>m_start = i + 0, m_end = i + 0 + e, g1_start = i + 0 + a,
        g1_end = i + 0 + b\<rparr>" by auto
    with Some x show ?thesis
      by (intro exI[of _ 0] exI[of _ e] exI[of _ a] exI[of _ b]) simp
  qed
next
  case (2 r c cs i)
  show ?case
  proof (cases "rmatch r (c # cs) 0 (0, 0)")
    case None
    with 2(2) have "search_from r cs (Suc i) = Some m" by simp
    from 2(1)[OF None this] obtain k where "\<exists>e a b. k \<le> length cs \<and>
      rmatch r (drop k cs) 0 (0, 0) = Some (e, a, b) \<and>
      m = \<lparr>m_start = Suc i + k, m_end = Suc i + k + e, g1_start = Suc i + k + a,
            g1_end = Suc i + k + b\<rparr> \<and>
      (\<forall>j<k. rmatch r (drop j cs) 0 (0, 0) = None)" ..
    then obtain e where "\<exists>a b. k \<le> length cs \<and>
      rmatch r (drop k cs) 0 (0, 0) = Some (e, a, b) \<and>
      m = \<lparr>m_start = Suc i + k, m_end = Suc i + k + e, g1_start = Suc i + k + a,
            g1_end = Suc i + k + b\<rparr> \<and>
      (\<forall>j<k. rmatch r (drop j cs) 0 (0, 0) = None)" ..
    then obtain a where "\<exists>b. k \<le> length cs \<and>
      rmatch r (drop k cs) 0 (0, 0) = Some (e, a, b) \<and>
      m = \<lparr>m_start = Suc i + k, m_end = Suc i + k + e, g1_start = Suc i + k + a,
            g1_end = Suc i + k + b\<rparr> \<and>
      (\<forall>j<k. rmatch r (drop j cs) 0 (0, 0) = None)" ..
    then obtain b where kk: "k \<le> length cs \<and>
      rmatch r (drop k cs) 0 (0, 0) = Some (e, a, b) \<and>
      m = \<lparr>m_start = Suc i + k, m_end = Suc i + k + e, g1_start = Suc i + k + a,
            g1_end = Suc i + k + b\<rparr> \<and>
      (\<forall>j<k. rmatch r (drop j cs) 0 (0, 0) = None)" ..
    then have k: "k \<le> length cs"
      "rmatch r (drop k cs) 0 (0, 0) = Some (e, a, b)"
      "m = \<lparr>m_start = Suc i + k, m_end = Suc i + k + e, g1_start = Suc i + k + a,
            g1_end = Suc i + k + b\<rparr>"
      "\<forall>j<k. rmatch r (drop j cs) 0 (0, 0) = None"
      by simp_all
    have "\<forall>j<Suc k. rmatch r (drop j (c # cs)) 0 (0, 0) = None"
    proof (intro allI impI)
      fix j assume "j < Suc k"
      then show "rmatch r (drop j (c # cs)) 0 (0, 0) = None"
        using None k(4) by (cases j) auto
    qed
    with k show ?thesis
      by (intro exI[of _ "Suc k"] exI[of _ e] exI[of _ a] exI[of _ b]) simp
  next
    case (Some x)
    obtain e a b where x: "x = (e, a, b)" by (cases x)
    with Some 2(2) have "m = \<lparr>m_start = i + 0, m_end = i + 0 + e, g1_start = i + 0 + a,
        g1_end = i + 0 + b\<rparr>" by auto
    with Some x show ?thesis
      by (intro exI[of _ 0] exI[of _ e] exI[of _ a] exI[of _ b]) simp
  qed
qed

lemma search_from_None:
  "search_from r s i = None \<Longrightarrow> j \<le> length s \<Longrightarrow> rmatch r (drop j s) 0 (0, 0) = None"
proof (induction r s i arbitrary: j rule: search_from.induct)
  case (1 r i)
  then show ?case by (cases "rmatch r [] 0 (0, 0)") auto
next
  case (2 r c cs i)
  from 2(2) have n: "rmatch r (c # cs) 0 (0, 0) = None"
    by (cases "rmatch r (c # cs) 0 (0, 0)") auto
  with 2(2) have "search_from r cs (Suc i) = None" by simp
  from 2(1)[OF n this] 2(3) n show ?case by (cases j) auto
qed


lemma search_from_found:
  assumes "k \<le> length s" and "rmatch r (drop k s) 0 (0, 0) \<noteq> None"
  shows "search_from r s i \<noteq> None"
proof
  assume "search_from r s i = None"
  from search_from_None[OF this assms(1)] assms(2) show False by simp
qed

lemma search_from_SomeE:
  assumes "search_from r s i = Some m"
  obtains k e a b where "k \<le> length s"
    and "rmatch r (drop k s) 0 (0, 0) = Some (e, a, b)"
    and "m = \<lparr>m_start = i + k, m_end = i + k + e, g1_start = i + k + a, g1_end = i + k + b\<rparr>"
    and "\<forall>j<k. rmatch r (drop j s) 0 (0, 0) = None"
proof -
  from search_from_Some[OF assms] obtain k where "\<exists>e a b. k \<le> length s \<and>
     rmatch r (drop k s) 0 (0, 0) = Some (e, a, b) \<and>
     m = \<lparr>m_start = i + k, m_end = i + k + e, g1_start = i + k + a, g1_end = i + k + b\<rparr> \<and>
     (\<forall>j<k. rmatch r (drop j s) 0 (0, 0) = None)" ..
  then obtain e where "\<exists>a b. k \<le> length s \<and>
     rmatch r (drop k s) 0 (0, 0) = Some (e, a, b) \<and>
     m = \<lparr>m_start = i + k, m_end = i + k + e, g1_start = i + k + a, g1_end = i + k + b\<rparr> \<and>
     (\<forall>j<k. rmatch r (drop j s) 0 (0, 0) = None)" ..
  then obtain a where "\<exists>b. k \<le> length s \<and>
     rmatch r (drop k s) 0 (0, 0) = Some (e, a, b) \<and>
     m = \<lparr>m_start = i + k, m_end = i + k + e, g1_start = i + k + a, g1_end = i + k + b\<rparr> \<and>
     (\<forall>j<k. rmatch r (drop j s) 0 (0, 0) = None)" ..
  then obtain b where kk: "k \<le> length s \<and>
     rmatch r (drop k s) 0 (0, 0) = Some (e, a, b) \<and>
     m = \<lparr>m_start = i + k, m_end = i + k + e, g1_start = i + k + a, g1_end = i + k + b\<rparr> \<and>
     (\<forall>j<k. rmatch r (drop j s) 0 (0, 0) = None)" ..
  from kk have "k \<le> length s" by (rule conjunct1)
  moreover from kk have "rmatch r (drop k s) 0 (0, 0) = Some (e, a, b)"
    by (elim conjE)
  moreover from kk have "m = \<lparr>m_start = i + k, m_end = i + k + e, g1_start = i + k + a,
      g1_end = i + k + b\<rparr>"
    by (elim conjE)
  moreover from kk have "\<forall>j<k. rmatch r (drop j s) 0 (0, 0) = None"
    by (elim conjE)
  ultimately show thesis by (rule that)
qed

text \<open>A match of a pattern that is one group: the document splits around group 1.\<close>

lemma re_search_wrappedE:
  assumes "closes r" and "re_search (GroupOpen # r) s = Some m"
  obtains pre post where "s = pre @ group1 s m @ post"
    and "length pre = m_start m"
    and "g1_start m = m_start m" and "g1_end m = m_end m"
    and "rmatch (GroupOpen # r) (group1 s m @ post) 0 (0, 0) =
             Some (length (group1 s m), 0, length (group1 s m))"
    and "\<forall>j<length pre. rmatch (GroupOpen # r) (drop j s) 0 (0, 0) = None"
proof -
  from assms(2) have "search_from (GroupOpen # r) s 0 = Some m" by (simp only: re_search_def)
  then obtain k e a b where k: "k \<le> length s"
    "rmatch (GroupOpen # r) (drop k s) 0 (0, 0) = Some (e, a, b)"
    "m = \<lparr>m_start = 0 + k, m_end = 0 + k + e, g1_start = 0 + k + a, g1_end = 0 + k + b\<rparr>"
    "\<forall>j<k. rmatch (GroupOpen # r) (drop j s) 0 (0, 0) = None"
    by (rule search_from_SomeE)
  from rmatch_wrapped[OF assms(1) k(2)] have ab: "a = 0" "b = e" "e \<le> length (drop k s)"
    by auto
  from k(3) ab have g: "group1 s m = take e (drop k s)" by (simp add: group1_def slice_def)
  have l: "length (take e (drop k s)) = e" using ab(3) by simp
  have f1: "s = take k s @ group1 s m @ drop e (drop k s)"
    unfolding g by (simp only: append_take_drop_id)
  have f2: "length (take k s) = m_start m" using k(1,3) by simp
  have f3: "g1_start m = m_start m" using k(3) ab by simp
  have f4: "g1_end m = m_end m" using k(3) ab by simp
  have f5: "rmatch (GroupOpen # r) (group1 s m @ drop e (drop k s)) 0 (0, 0) =
       Some (length (group1 s m), 0, length (group1 s m))"
    unfolding g l using k(2) ab by (simp only: append_take_drop_id)
  have f6: "\<forall>j<length (take k s). rmatch (GroupOpen # r) (drop j s) 0 (0, 0) = None"
    using k(1,4) by simp
  from f1 f2 f3 f4 f5 f6 show thesis by (rule that)
qed










lemma occurrences_from_set:
  "set (occurrences_from p s i) = {i + k | k. k \<le> length s \<and> prefix p (drop k s)}"
proof (induction s arbitrary: i)
  case Nil
  show ?case by auto
next
  case (Cons c cs)
  have "{i + k | k. k \<le> length (c # cs) \<and> prefix p (drop k (c # cs))} =
        (if prefix p (c # cs) then {i} else {}) \<union>
        {Suc i + k | k. k \<le> length cs \<and> prefix p (drop k cs)}" (is "?L = ?R")
  proof (intro set_eqI iffI)
    fix x assume "x \<in> ?L"
    then obtain k where k: "x = i + k" "k \<le> length (c # cs)" "prefix p (drop k (c # cs))"
      by blast
    show "x \<in> ?R"
    proof (cases k)
      case 0
      with k show ?thesis by simp
    next
      case (Suc k')
      with k have "x = Suc i + k'" "k' \<le> length cs" "prefix p (drop k' cs)" by simp_all
      then show ?thesis by blast
    qed
  next
    fix x assume "x \<in> ?R"
    then consider "prefix p (c # cs)" "x = i"
      | k where "x = Suc i + k" "k \<le> length cs" "prefix p (drop k cs)"
      by (auto split: if_splits)
    then show "x \<in> ?L"
    proof cases
      case 1
      then have "x = i + 0 \<and> 0 \<le> length (c # cs) \<and> prefix p (drop 0 (c # cs))" by simp
      then show ?thesis by blast
    next
      case 2
      then have "x = i + Suc k \<and> Suc k \<le> length (c # cs) \<and> prefix p (drop (Suc k) (c # cs))"
        by simp
      then show ?thesis by blast
    qed
  qed
  with Cons[of "Suc i"] show ?case by auto
qed

lemma occurrences_iff:
  "k \<in> set (occurrences p s) \<longleftrightarrow> k \<le> length s \<and> prefix p (drop k s)"
  by (simp add: occurrences_def occurrences_from_set)

lemma replace_scan_none:
  "\<forall>k\<le>length s. \<not> prefix old (drop k s) \<Longrightarrow> replace_scan old new s = s"
proof (induction s)
  case Nil
  show ?case by simp
next
  case (Cons c cs)
  from Cons(2)[rule_format, of 0] have n: "\<not> prefix old (c # cs)" by simp
  have "\<forall>k\<le>length cs. \<not> prefix old (drop k cs)"
  proof (intro allI impI)
    fix k assume "k \<le> length cs"
    with Cons(2)[rule_format, of "Suc k"] show "\<not> prefix old (drop k cs)" by simp
  qed
  from Cons(1)[OF this] n show ?case by simp
qed

lemma replace_scan_prefix:
  assumes "old \<noteq> []"
  shows "replace_scan old new (old @ post) = new @ replace_scan old new post"
proof -
  from assms obtain c cs where o: "old @ post = c # cs" by (cases old) auto
  have p: "prefix old (c # cs)" using o by (metis prefixI)
  have d: "drop (length old) (c # cs) = post" using o by (metis append_eq_conv_conj)
  have "replace_scan old new (c # cs) = new @ replace_scan old new (drop (length old) (c # cs))"
    using assms p by simp
  then show ?thesis by (simp only: o d)
qed

lemma replace_scan_unique:
  assumes "old \<noteq> []"
    and "\<forall>k\<le>length (pre @ old @ post). prefix old (drop k (pre @ old @ post)) \<longrightarrow> k = length pre"
  shows "replace_scan old (old @ ins) (pre @ old @ post) = pre @ old @ ins @ post"
  using assms(2)
proof (induction pre)
  case Nil
  have "\<forall>k\<le>length post. \<not> prefix old (drop k post)"
  proof (intro allI impI notI)
    fix k assume k: "k \<le> length post" and p: "prefix old (drop k post)"
    from Nil[rule_format, of "length old + k"] k p have "length old + k = 0" by simp
    with assms(1) show False by simp
  qed
  then have "replace_scan old (old @ ins) post = post" by (rule replace_scan_none)
  with replace_scan_prefix[OF assms(1), of "old @ ins" post] show ?case by simp
next
  case (Cons c pre)
  from Cons(2)[rule_format, of 0] have n: "\<not> prefix old (c # pre @ old @ post)" by auto
  have "\<forall>k\<le>length (pre @ old @ post).
      prefix old (drop k (pre @ old @ post)) \<longrightarrow> k = length pre"
  proof (intro allI impI)
    fix k assume "k \<le> length (pre @ old @ post)" "prefix old (drop k (pre @ old @ post))"
    with Cons(2)[rule_format, of "Suc k"] show "k = length pre" by simp
  qed
  from Cons(1)[OF this] n show ?case by simp
qed

lemma occurrences_Nil_single:
  assumes "occurrences [] s = [k]"
  shows "s = []" and "k = 0"
proof -
  have "0 \<in> set (occurrences [] s)" "length s \<in> set (occurrences [] s)"
    by (simp_all add: occurrences_iff)
  with assms show "s = []" "k = 0" by auto
qed

lemma str_replace_unique:
  assumes "occurrences old s = [k]"
  shows "str_replace old (old @ ins) s =
         take (k + length old) s @ ins @ drop (k + length old) s"
proof (cases "old = []")
  case True
  with assms occurrences_Nil_single[of s k] show ?thesis by (simp add: str_replace_def)
next
  case False
  from assms have "k \<in> set (occurrences old s)" by simp
  then have k: "k \<le> length s" "prefix old (drop k s)" by (simp_all add: occurrences_iff)
  then obtain post where post: "drop k s = old @ post" by (auto simp: prefix_def)
  have s: "s = take k s @ old @ post" using post by (metis append_take_drop_id)
  have lk: "length (take k s) = k" using k(1) by simp
  have u: "\<forall>j\<le>length (take k s @ old @ post).
      prefix old (drop j (take k s @ old @ post)) \<longrightarrow> j = length (take k s)"
  proof (intro allI impI)
    fix j assume "j \<le> length (take k s @ old @ post)"
      "prefix old (drop j (take k s @ old @ post))"
    with s have "j \<in> set (occurrences old s)" by (simp add: occurrences_iff)
    with assms lk show "j = length (take k s)" by simp
  qed
  from replace_scan_unique[OF False u, of ins] s
  have "replace_scan old (old @ ins) s = take k s @ old @ ins @ post" by simp
  moreover have "take (k + length old) s = take k s @ old"
    using post by (simp add: take_add)
  moreover have "drop (k + length old) s = post"
    using post by (simp add: add.commute[of k] flip: drop_drop)
  ultimately show ?thesis using False by (simp add: str_replace_def)
qed





lemma closes_sources: "closes (tl sources_phase_pattern)" "hd sources_phase_pattern = GroupOpen"
  by (simp_all add: sources_phase_pattern_def lit_def)

lemma closes_build_file:
  "closes (tl build_file_section_pattern)" "hd build_file_section_pattern = GroupOpen"
  by (simp_all add: build_file_section_pattern_def lit_def)

lemma closes_file_ref:
  "closes (tl file_ref_section_pattern)" "hd file_ref_section_pattern = GroupOpen"
  by (simp_all add: file_ref_section_pattern_def lit_def)

text \<open>Group 1 of a match of a one-group pattern occurs in the document, at the match.\<close>

lemma re_search_group1E:
  assumes "closes (tl p)" and "hd p = GroupOpen" and "re_search p s = Some m"
  obtains pre post where "s = pre @ group1 s m @ post"
    and "length pre = m_start m"
    and "rmatch p (group1 s m @ post) 0 (0, 0) =
           Some (length (group1 s m), 0, length (group1 s m))"
    and "\<forall>j<length pre. rmatch p (drop j s) 0 (0, 0) = None"
proof -
  from assms(1) have "p \<noteq> []" by (cases p) auto
  with assms(2) have p: "p = GroupOpen # tl p" by (cases p) auto
  from assms(3) p have "re_search (GroupOpen # tl p) s = Some m" by simp
  from re_search_wrappedE[OF assms(1) this] obtain pre post where
    "s = pre @ group1 s m @ post" "length pre = m_start m"
    "rmatch (GroupOpen # tl p) (group1 s m @ post) 0 (0, 0) =
       Some (length (group1 s m), 0, length (group1 s m))"
    "\<forall>j<length pre. rmatch (GroupOpen # tl p) (drop j s) 0 (0, 0) = None"
    by metis
  with p that show thesis by metis
qed



lemma hex_upper_all:
  "\<forall>n\<in>set [0..<16]. upper_char (hex_digit n) \<in> set ''0123456789ABCDEF''"
  by code_simp

lemma hex_upper: "n < 16 \<Longrightarrow> upper_char (hex_digit n) \<in> set ''0123456789ABCDEF''"
  using hex_upper_all by (simp del: upt.simps add: Ball_def)

lemma nibble_less: "unat ((w :: 128 word) AND 15) < 16"
proof -
  have "w AND 15 \<le> 15" by (rule word_and_le1)
  then have "unat (w AND 15) \<le> unat (15 :: 128 word)" by (simp add: word_le_nat_alt)
  then show ?thesis by simp
qed

lemma token_format:
  "length (token u) = 24 \<and> set (token u) \<subseteq> set ''0123456789ABCDEF''"
proof
  show "length (token u) = 24" by (simp add: token_def uuid_hex_def)
  show "set (token u) \<subseteq> set ''0123456789ABCDEF''"
  proof
    fix c assume "c \<in> set (token u)"
    then obtain d where "d \<in> set (uuid_hex u)" "c = upper_char d"
      unfolding token_def using set_take_subset[of 24 "uuid_hex u"] by auto
    then obtain i where "c = upper_char (hex_digit (unat (drop_bit (4 * (31 - i)) u AND 15)))"
      unfolding uuid_hex_def by auto
    with hex_upper[OF nibble_less] show "c \<in> set ''0123456789ABCDEF''" by simp
  qed
qed

lemma rmatch_lit:
  "rmatch (lit h @ r) s p g =
     (if prefix h s then rmatch r (drop (length h) s) (p + length h) g else None)"
proof (induction h arbitrary: s p)
  case Nil
  show ?case by (simp add: lit_def)
next
  case (Cons x h)
  show ?case
  proof (cases s)
    case Nil
    then show ?thesis by (simp add: lit_def)
  next
    case (Cons c cs)
    with Cons.IH[of cs "Suc p"] show ?thesis by (simp add: lit_def)
  qed
qed



lemma contains_iff: "contains w s \<longleftrightarrow> (\<exists>k\<le>length s. prefix w (drop k s))"
proof (induction s)
  case Nil
  show ?case by auto
next
  case (Cons c cs)
  show ?case
  proof
    assume "contains w (c # cs)"
    then consider "prefix w (c # cs)" | "contains w cs" by auto
    then show "\<exists>k\<le>length (c # cs). prefix w (drop k (c # cs))"
    proof cases
      case 1
      then have "0 \<le> length (c # cs) \<and> prefix w (drop 0 (c # cs))" by simp
      then show ?thesis by blast
    next
      case 2
      with Cons obtain k where "k \<le> length cs" "prefix w (drop k cs)" by auto
      then have "Suc k \<le> length (c # cs) \<and> prefix w (drop (Suc k) (c # cs))" by simp
      then show ?thesis by blast
    qed
  next
    assume "\<exists>k\<le>length (c # cs). prefix w (drop k (c # cs))"
    then obtain k where k: "k \<le> length (c # cs)" "prefix w (drop k (c # cs))" by auto
    show "contains w (c # cs)"
    proof (cases k)
      case 0
      with k show ?thesis by simp
    next
      case (Suc k')
      with k have "k' \<le> length cs" "prefix w (drop k' cs)" by simp_all
      with Cons show ?thesis by auto
    qed
  qed
qed

lemma contains_occurrences: "contains w s \<longleftrightarrow> occurrences w s \<noteq> []"
proof -
  have "occurrences w s \<noteq> [] \<longleftrightarrow> (\<exists>k. k \<in> set (occurrences w s))"
    by (cases "occurrences w s") auto
  then show ?thesis by (simp add: contains_iff occurrences_iff)
qed

text \<open>
  An occurrence of \<open>w\<close> in a text with an inserted block lies before the block or
  after it, when \<open>w\<close> has neither the first nor the last character of the block and
  does not occur in the block.
\<close>

lemma occurrence_avoids_block_tl:
  assumes "ins \<noteq> []" and "hd ins \<notin> set (tl w)" and "last ins \<notin> set w" and "\<not> contains w ins"
    and "j \<in> set (occurrences w (a @ ins @ b))"
  shows "(j + length w \<le> length a \<and> j \<in> set (occurrences w (a @ b))) \<or>
         (length a + length ins \<le> j \<and> j - length ins \<in> set (occurrences w (a @ b)))"
proof -
  from assms(5) have j: "j \<le> length (a @ ins @ b)" and p: "prefix w (drop j (a @ ins @ b))"
    by (simp_all add: occurrences_iff)
  consider "j < length a" | "length a \<le> j" "j < length a + length ins"
    | "length a + length ins \<le> j" by linarith
  then show ?thesis
  proof cases
    case 1
    then have d: "drop j (a @ ins @ b) = drop j a @ ins @ b" by simp
    from p have "prefix w (drop j a @ (ins @ b))" unfolding d .
    then have "prefix w (drop j a) \<or> (\<exists>us. w = drop j a @ us \<and> prefix us (ins @ b))"
      by (rule prefix_append[THEN iffD1])
    then have pa: "prefix w (drop j a)"
    proof
      assume "\<exists>us. w = drop j a @ us \<and> prefix us (ins @ b)"
      then obtain us where us: "w = drop j a @ us" "prefix us (ins @ b)" by blast
      show ?thesis
      proof (cases us)
        case Nil
        with us show ?thesis by simp
      next
        case (Cons u us')
        with us(2) assms(1) have "u = hd ins" by (cases ins) auto
        moreover from 1 have "drop j a \<noteq> []" by simp
        then obtain d ds where "drop j a = d # ds" by (cases "drop j a") auto
        with us(1) Cons have "u \<in> set (tl w)" by simp
        ultimately show ?thesis using assms(2) by simp
      qed
    qed
    then have "length w \<le> length (drop j a)" by (rule prefix_length_le)
    with 1 have l: "j + length w \<le> length a" by simp
    from pa have "prefix w (drop j a @ b)" by (rule prefix_prefix)
    with 1 have "j \<in> set (occurrences w (a @ b))" by (simp add: occurrences_iff)
    with l show ?thesis by simp
  next
    case 2
    then have d: "drop j (a @ ins @ b) = drop (j - length a) ins @ b" by simp
    from 2 have ne: "drop (j - length a) ins \<noteq> []" by simp
    from p have "prefix w (drop (j - length a) ins @ b)" unfolding d .
    then have "prefix w (drop (j - length a) ins) \<or>
        (\<exists>us. w = drop (j - length a) ins @ us \<and> prefix us b)"
      by (rule prefix_append[THEN iffD1])
    then have False
    proof
      assume "prefix w (drop (j - length a) ins)"
      then have "contains w ins" unfolding contains_iff
        by (intro exI[of _ "j - length a"]) (use 2 in simp)
      with assms(4) show False by simp
    next
      assume "\<exists>us. w = drop (j - length a) ins @ us \<and> prefix us b"
      then obtain us where "w = drop (j - length a) ins @ us" by blast
      moreover have "last (drop (j - length a) ins) = last ins" using ne by simp
      ultimately have "last ins \<in> set w" using ne by (metis last_in_set UnCI set_append)
      with assms(3) show False by simp
    qed
    then show ?thesis ..
  next
    case 3
    then have "drop j (a @ ins @ b) = drop (j - length ins) (a @ b)"
      by (simp add: add.commute)
    with p j 3 have "j - length ins \<in> set (occurrences w (a @ b))"
      by (simp add: occurrences_iff)
    with 3 show ?thesis by simp
  qed
qed

lemma occurrence_avoids_block:
  assumes "ins \<noteq> []" and "hd ins \<notin> set w" and "last ins \<notin> set w" and "\<not> contains w ins"
    and "j \<in> set (occurrences w (a @ ins @ b))"
  shows "(j + length w \<le> length a \<and> j \<in> set (occurrences w (a @ b))) \<or>
         (length a + length ins \<le> j \<and> j - length ins \<in> set (occurrences w (a @ b)))"
proof -
  from assms(2) have "hd ins \<notin> set (tl w)" by (cases w) auto
  from occurrence_avoids_block_tl[OF assms(1) this assms(3,4,5)] show ?thesis .
qed









lemma rmatch_star_close: "rmatch [Star x, GroupClose] s p g \<noteq> None"
proof (induction s arbitrary: p)
  case Nil
  show ?case by (cases g) simp
next
  case (Cons c cs)
  show ?case
  proof (cases "atom_ok x c")
    case True
    from Cons[of "Suc p"] obtain m where "rmatch [Star x, GroupClose] cs (Suc p) g = Some m"
      by auto
    with True show ?thesis by simp
  next
    case False
    then show ?thesis by (cases g) simp
  qed
qed

lemma rmatch_ends_at:
  "ends_at c r \<Longrightarrow> rmatch r s p g = Some (e, g') \<Longrightarrow>
   e - p = length s \<or> (e - p < length s \<and> s ! (e - p) = c)"
proof (induction r s p g arbitrary: e g' rule: rmatch.induct)
  case (1 s p g)
  then show ?case by simp
next
  case (2 r s p a b)
  then show ?case by simp
next
  case (3 r s p a b)
  then show ?case by simp
next
  case (4 x r p g)
  then show ?case by simp
next
  case (5 x r c' cs p g)
  show ?case
  proof (cases "atom_ok x c'")
    case True
    with 5(3) have m: "rmatch r cs (Suc p) g = Some (e, g')" by simp
    from 5(2) have "ends_at c r" by simp
    from 5(1)[OF True this m] rmatch_bounds[OF m] show ?thesis
      by (auto simp: Suc_diff_Suc less_eq_Suc_le)
  next
    case False
    with 5(3) show ?thesis by simp
  qed
next
  case (6 x r p g)
  then show ?case by simp
next
  case (7 x r c' cs p g)
  show ?case
  proof (cases "atom_ok x c'")
    case True
    with 7(3) have m: "rmatch (Star x # r) cs (Suc p) g = Some (e, g')" by simp
    from 7(2) have "ends_at c (Star x # r)" by simp
    from 7(1)[OF True this m] rmatch_bounds[OF m] show ?thesis
      by (auto simp: Suc_diff_Suc less_eq_Suc_le)
  next
    case False
    with 7(3) show ?thesis by simp
  qed
next
  case (8 x r p g)
  show ?case
  proof (cases "r = [GroupClose]")
    case True
    with 8(3) show ?thesis by (cases g) auto
  next
    case False
    with 8 show ?thesis by simp
  qed
next
  case (9 x r c' cs p g)
  show ?case
  proof (cases "atom_ok x c'")
    case True
    show ?thesis
    proof (cases "rmatch (Star x # r) cs (Suc p) g")
      case None
      have "r \<noteq> [GroupClose]" using None rmatch_star_close[of x cs "Suc p" g] by auto
      with 9(4) have "ends_at c r" by simp
      moreover from 9(5) True None have "rmatch r (c' # cs) p g = Some (e, g')" by simp
      ultimately show ?thesis using 9(2)[OF True None] by simp
    next
      case (Some m)
      with 9(5) True have m: "rmatch (Star x # r) cs (Suc p) g = Some (e, g')" by simp
      from 9(1)[OF True 9(4) m] rmatch_bounds[OF m] show ?thesis
        by (auto simp: Suc_diff_Suc less_eq_Suc_le)
    qed
  next
    case False
    with 9(5) have m: "rmatch r (c' # cs) p g = Some (e, g')" by simp
    show ?thesis
    proof (cases "r = [GroupClose]")
      case True
      with m have "e = p" by (cases g) auto
      moreover from True 9(4) have "x = NotChr c" by simp
      with False have "c' = c" by simp
      ultimately show ?thesis by simp
    next
      case r: False
      with 9(4) have "ends_at c r" by simp
      from 9(3)[OF False this m] show ?thesis .
    qed
  qed
next
  case (10 x r p g)
  then show ?case by simp
next
  case (11 x r c' cs p g)
  from 11(3) have e: "ends_at c r" by simp
  show ?case
  proof (cases "rmatch r (c' # cs) p g")
    case None
    with 11(4) have ok: "atom_ok x c'" and m: "rmatch (LazyStar x # r) cs (Suc p) g = Some (e, g')"
      by (simp_all split: if_splits)
    from 11(2)[OF None ok 11(3) m] rmatch_bounds[OF m] show ?thesis
      by (auto simp: Suc_diff_Suc less_eq_Suc_le)
  next
    case (Some m)
    with 11(4) have "rmatch r (c' # cs) p g = Some (e, g')" by simp
    from 11(1)[OF e this] show ?thesis .
  qed
qed

lemma rmatch_has_char:
  "One (Chr c) \<in> set r \<Longrightarrow> rmatch r s p g = Some (e, g') \<Longrightarrow> c \<in> set (take (e - p) s)"
proof (induction r s p g arbitrary: e g' rule: rmatch.induct)
  case (5 x r c' cs p g)
  show ?case
  proof (cases "atom_ok x c'")
    case True
    with 5(3) have m: "rmatch r cs (Suc p) g = Some (e, g')" by simp
    from rmatch_bounds[OF m] have t: "take (e - p) (c' # cs) = c' # take (e - Suc p) cs"
      by (simp add: take_Cons')
    show ?thesis
    proof (cases "x = Chr c")
      case x: True
      with True have "c' = c" by simp
      with t show ?thesis by simp
    next
      case False
      with 5(2) have "One (Chr c) \<in> set r" by auto
      from 5(1)[OF True this m] t show ?thesis by simp
    qed
  next
    case False
    with 5(3) show ?thesis by simp
  qed
next
  case (7 x r c' cs p g)
  show ?case
  proof (cases "atom_ok x c'")
    case True
    with 7(3) have m: "rmatch (Star x # r) cs (Suc p) g = Some (e, g')" by simp
    from rmatch_bounds[OF m] have t: "take (e - p) (c' # cs) = c' # take (e - Suc p) cs"
      by (simp add: take_Cons')
    from 7(2) have "One (Chr c) \<in> set (Star x # r)" by simp
    from 7(1)[OF True this m] t show ?thesis by simp
  next
    case False
    with 7(3) show ?thesis by simp
  qed
next
  case (9 x r c' cs p g)
  from 9(4) have r: "One (Chr c) \<in> set r" by simp
  show ?case
  proof (cases "atom_ok x c'")
    case True
    show ?thesis
    proof (cases "rmatch (Star x # r) cs (Suc p) g")
      case None
      with 9(5) True have "rmatch r (c' # cs) p g = Some (e, g')" by simp
      from 9(2)[OF True None r this] show ?thesis .
    next
      case (Some m)
      with 9(5) True have m: "rmatch (Star x # r) cs (Suc p) g = Some (e, g')" by simp
      from rmatch_bounds[OF m] have t: "take (e - p) (c' # cs) = c' # take (e - Suc p) cs"
        by (simp add: take_Cons')
      from 9(1)[OF True 9(4) m] t show ?thesis by simp
    qed
  next
    case False
    with 9(5) have "rmatch r (c' # cs) p g = Some (e, g')" by simp
    from 9(3)[OF False r this] show ?thesis .
  qed
next
  case (11 x r c' cs p g)
  from 11(3) have r: "One (Chr c) \<in> set r" by simp
  show ?case
  proof (cases "rmatch r (c' # cs) p g")
    case None
    with 11(4) have ok: "atom_ok x c'" and m: "rmatch (LazyStar x # r) cs (Suc p) g = Some (e, g')"
      by (simp_all split: if_splits)
    from rmatch_bounds[OF m] have t: "take (e - p) (c' # cs) = c' # take (e - Suc p) cs"
      by (simp add: take_Cons')
    from 11(2)[OF None ok 11(3) m] t show ?thesis by simp
  next
    case (Some m)
    with 11(4) have "rmatch r (c' # cs) p g = Some (e, g')" by simp
    from 11(1)[OF r this] show ?thesis .
  qed
qed auto

text \<open>A replacement keeps a prefix in which the replaced text does not occur.\<close>

lemma contains_append_left: "contains w a \<Longrightarrow> contains w (a @ b)"
proof (induction a)
  case Nil
  then have "w = []" by simp
  then show ?case by (simp add: contains_iff) (rule exI[of _ 0], simp)
next
  case (Cons c a)
  from Cons(2) have "prefix w (c # a) \<or> contains w a" by simp
  then show ?case
  proof
    assume "prefix w (c # a)"
    then have "prefix w ((c # a) @ b)" by (rule prefix_prefix)
    then show ?thesis by simp
  next
    assume "contains w a"
    from Cons(1)[OF this] show ?thesis by simp
  qed
qed

lemma replace_scan_keeps_prefix:
  assumes "old \<noteq> []"
  shows "\<not> contains old k \<Longrightarrow> prefix k (replace_scan old (old @ ins) (k @ y))"
proof (induction k)
  case Nil
  show ?case by simp
next
  case (Cons c k)
  from Cons(2) have nk: "\<not> prefix old (c # k)" "\<not> contains old k" by simp_all
  show ?case
  proof (cases "prefix old (c # k @ y)")
    case True
    then obtain z where z: "(c # k) @ y = old @ z" by (auto simp: prefix_def)
    then have "prefix (c # k) old \<or> prefix old (c # k)" by (metis prefix_same_cases prefixI)
    with nk have "prefix (c # k) old" by auto
    then have "prefix (c # k) (old @ ins @ replace_scan old (old @ ins) (drop (length old) (c # k @ y)))"
      by (rule prefix_prefix)
    with True assms show ?thesis by simp
  next
    case False
    with Cons(1)[OF nk(2)] show ?thesis by simp
  qed
qed

text \<open>
  A replacement keeps a block of the text when no occurrence of the replaced text
  ends inside the block.
\<close>

lemma replace_scan_keeps_block:
  assumes "old \<noteq> []" and "\<not> contains old k"
  shows "\<forall>j<length x. prefix old (drop j (x @ k @ y)) \<longrightarrow>
           j + length old \<le> length x \<or> length x + length k \<le> j + length old \<Longrightarrow>
         contains k (replace_scan old (old @ ins) (x @ k @ y))"
proof (induction "length x" arbitrary: x rule: less_induct)
  case less
  show ?case
  proof (cases x)
    case Nil
    from replace_scan_keeps_prefix[OF assms, of ins y] Nil show ?thesis
      by (auto simp: contains_iff intro: exI[of _ 0])
  next
    case (Cons c x')
    show ?thesis
    proof (cases "prefix old (c # x' @ k @ y)")
      case True
      then obtain z where z: "c # x' @ k @ y = old @ z" by (auto simp: prefix_def)
      from less(2)[rule_format, of 0] True Cons
      consider "length old \<le> length x" | "length x + length k \<le> length old" by auto
      then show ?thesis
      proof cases
        case 1
        let ?x = "drop (length old) x"
        have e: "c # x' @ k @ y = x @ k @ y" using Cons by simp
        have d: "drop (length old) (c # x' @ k @ y) = ?x @ k @ y" unfolding e using 1 by simp
        have lt: "length ?x < length x" using assms(1) Cons by simp
        have "\<forall>j<length ?x. prefix old (drop j (?x @ k @ y)) \<longrightarrow>
           j + length old \<le> length ?x \<or> length ?x + length k \<le> j + length old"
        proof (intro allI impI)
          fix j assume j: "j < length ?x" and p: "prefix old (drop j (?x @ k @ y))"
          have "drop (length old) (x @ k @ y) = ?x @ k @ y" using 1 by simp
          then have "drop j (drop (length old) (x @ k @ y)) = drop j (?x @ k @ y)" by simp
          then have "drop (j + length old) (x @ k @ y) = drop j (?x @ k @ y)"
            by (simp only: drop_drop)
          with p have "prefix old (drop (j + length old) (x @ k @ y))" by simp
          moreover have "j + length old < length x" using j by simp
          ultimately have "j + length old + length old \<le> length x \<or>
              length x + length k \<le> j + length old + length old"
            using less(2) by blast
          then show "j + length old \<le> length ?x \<or> length ?x + length k \<le> j + length old"
            using 1 by auto
        qed
        from less(1)[OF lt this] have "contains k (replace_scan old (old @ ins) (?x @ k @ y))" .
        then obtain i where "i \<le> length (replace_scan old (old @ ins) (?x @ k @ y))"
          "prefix k (drop i (replace_scan old (old @ ins) (?x @ k @ y)))"
          by (auto simp: contains_iff)
        then have "length (old @ ins) + i \<le> length ((old @ ins) @ replace_scan old (old @ ins) (?x @ k @ y))"
          "prefix k (drop (length (old @ ins) + i) ((old @ ins) @ replace_scan old (old @ ins) (?x @ k @ y)))"
          by simp_all
        then have "contains k ((old @ ins) @ replace_scan old (old @ ins) (?x @ k @ y))"
          unfolding contains_iff by blast
        with True assms(1) d Cons show ?thesis by simp
      next
        case 2
        from z Cons have "x @ k @ y = old @ z" by simp
        moreover have "length (x @ k) \<le> length old" using 2 by simp
        ultimately have "prefix (x @ k) old"
          by (metis append.assoc prefixI prefix_length_prefix)
        then obtain u where "old = x @ k @ u" by (auto simp: prefix_def)
        then have "prefix k (drop (length x) (old @ ins @ replace_scan old (old @ ins) (drop (length old) (c # x' @ k @ y))))"
          by simp
        moreover have "length x \<le> length (old @ ins @ replace_scan old (old @ ins) (drop (length old) (c # x' @ k @ y)))"
          using 2 by simp
        ultimately have "contains k (old @ ins @ replace_scan old (old @ ins) (drop (length old) (c # x' @ k @ y)))"
          unfolding contains_iff by blast
        with True assms(1) Cons show ?thesis by simp
      qed
    next
      case False
      have lt: "length x' < length x" using Cons by simp
      have "\<forall>j<length x'. prefix old (drop j (x' @ k @ y)) \<longrightarrow>
           j + length old \<le> length x' \<or> length x' + length k \<le> j + length old"
      proof (intro allI impI)
        fix j assume j: "j < length x'" and p: "prefix old (drop j (x' @ k @ y))"
        from p Cons have "prefix old (drop (Suc j) (x @ k @ y))" by simp
        moreover have "Suc j < length x" using j Cons by simp
        ultimately have "Suc j + length old \<le> length x \<or> length x + length k \<le> Suc j + length old"
          using less(2) by blast
        then show "j + length old \<le> length x' \<or> length x' + length k \<le> j + length old"
          using Cons by auto
      qed
      from less(1)[OF lt this] have "contains k (replace_scan old (old @ ins) (x' @ k @ y))" .
      with False Cons show ?thesis by simp
    qed
  qed
qed

lemma replace_scan_prefix_back:
  assumes "old \<noteq> []" and "ins \<noteq> []"
  shows "hd ins \<notin> set w \<Longrightarrow> prefix w (replace_scan old (old @ ins) s) \<Longrightarrow> prefix w s"
proof (induction s arbitrary: w rule: length_induct)
  case (1 s)
  show ?case
  proof (cases s)
    case Nil
    with 1(3) show ?thesis by simp
  next
    case (Cons c cs)
    show ?thesis
    proof (cases "prefix old (c # cs)")
      case True
      then obtain z where z: "c # cs = old @ z" by (auto simp: prefix_def)
      let ?R = "replace_scan old (old @ ins) (drop (length old) (c # cs))"
      from 1(3) True assms(1) Cons have p: "prefix w (old @ ins @ ?R)" by simp
      have "length w \<le> length old"
      proof (rule ccontr)
        assume "\<not> length w \<le> length old"
        then have l: "length old < length w" by simp
        from p obtain t where t: "old @ ins @ ?R = w @ t" by (auto simp: prefix_def)
        then have "w ! length old = (old @ ins @ ?R) ! length old" using l
          by (metis nth_append)
        also have "\<dots> = hd ins" using assms(2) by (simp add: nth_append hd_conv_nth)
        finally have "hd ins \<in> set w" using l by (metis nth_mem)
        with 1(2) show False by simp
      qed
      with p have "prefix w old" by (metis prefix_length_prefix prefixI)
      with True Cons show ?thesis by (metis prefix_order.order_trans)
    next
      case False
      with 1(3) Cons have p: "prefix w (c # replace_scan old (old @ ins) cs)" by simp
      show ?thesis
      proof (cases w)
        case Nil
        then show ?thesis by simp
      next
        case w: (Cons c' w')
        with p have c: "c' = c" and p': "prefix w' (replace_scan old (old @ ins) cs)" by simp_all
        from 1(2) w have "hd ins \<notin> set w'" by simp
        from 1(1)[rule_format, of cs w', OF _ this p'] Cons have "prefix w' cs" by simp
        with c w Cons show ?thesis by simp
      qed
    qed
  qed
qed

lemma replace_scan_followed:
  assumes "old \<noteq> []" and "ins \<noteq> []" and "hd ins \<notin> set old" and "last ins \<notin> set old"
    and "\<not> contains old ins"
  shows "j \<le> length (replace_scan old (old @ ins) s) \<Longrightarrow>
         prefix old (drop j (replace_scan old (old @ ins) s)) \<Longrightarrow>
         prefix (old @ ins) (drop j (replace_scan old (old @ ins) s))"
proof (induction s arbitrary: j rule: length_induct)
  case (1 s)
  show ?case
  proof (cases s)
    case Nil
    with 1(3) assms(1) show ?thesis by simp
  next
    case (Cons c cs)
    show ?thesis
    proof (cases "prefix old (c # cs)")
      case True
      let ?s' = "drop (length old) (c # cs)"
      let ?R = "replace_scan old (old @ ins) ?s'"
      from True assms(1) Cons have R: "replace_scan old (old @ ins) s = old @ ins @ ?R" by simp
      from 1(2,3) have "j \<in> set (occurrences old (old @ ins @ ?R))"
        unfolding R by (simp add: occurrences_iff)
      from occurrence_avoids_block[OF assms(2,3,4,5) this]
      consider "j = 0" | "length old + length ins \<le> j" by auto
      then show ?thesis
      proof cases
        case 1
        then show ?thesis unfolding R by simp
      next
        case 2
        then have d: "drop j (old @ ins @ ?R) = drop (j - (length old + length ins)) ?R" by simp
        have lt: "length ?s' < length s" using assms(1) Cons by simp
        have j': "j - (length old + length ins) \<le> length ?R" using 1(2) 2 unfolding R by simp
        from 1(3) have "prefix old (drop (j - (length old + length ins)) ?R)"
          unfolding R d .
        from 1(1)[rule_format, OF lt j' this] show ?thesis unfolding R d .
      qed
    next
      case False
      let ?R = "replace_scan old (old @ ins) cs"
      from False Cons have R: "replace_scan old (old @ ins) s = c # ?R" by simp
      show ?thesis
      proof (cases j)
        case 0
        with 1(3) have "prefix old (replace_scan old (old @ ins) s)" by simp
        from replace_scan_prefix_back[OF assms(1,2,3) this] Cons False show ?thesis by simp
      next
        case (Suc j')
        have lt: "length cs < length s" using Cons by simp
        from 1(2) Suc have j': "j' \<le> length ?R" unfolding R by simp
        from 1(3) Suc have "prefix old (drop j' ?R)" unfolding R by simp
        from 1(1)[rule_format, OF lt j' this] Suc show ?thesis unfolding R by simp
      qed
    qed
  qed
qed

lemma replace_scan_contains:
  assumes "old \<noteq> []"
  shows "contains old s \<Longrightarrow> contains (old @ ins) (replace_scan old (old @ ins) s)"
proof (induction s)
  case Nil
  with assms show ?case by simp
next
  case (Cons c cs)
  show ?case
  proof (cases "prefix old (c # cs)")
    case True
    let ?R = "replace_scan old (old @ ins) (drop (length old) (c # cs))"
    have "prefix (old @ ins) ((old @ ins) @ ?R)" by (rule prefixI) simp
    moreover from True assms have "replace_scan old (old @ ins) (c # cs) = (old @ ins) @ ?R"
      by simp
    moreover obtain d ds where "(old @ ins) @ ?R = d # ds" using assms by (cases old) auto
    ultimately show ?thesis by (metis contains.simps(2))
  next
    case False
    with Cons(2) have "contains old cs" by simp
    from Cons(1)[OF this] False show ?thesis by simp
  qed
qed

lemma containsE:
  assumes "contains w s"
  obtains x y where "s = x @ w @ y"
proof -
  from assms obtain k where "k \<le> length s" "prefix w (drop k s)" by (auto simp: contains_iff)
  then obtain y where "drop k s = w @ y" by (auto simp: prefix_def)
  then have "s = take k s @ w @ y" by (metis append_take_drop_id)
  then show ?thesis by (rule that)
qed

lemma containsI: "contains w (x @ w @ y)"
proof -
  have "prefix w (drop (length x) (x @ w @ y))" by simp
  moreover have "length x \<le> length (x @ w @ y)" by simp
  ultimately show ?thesis unfolding contains_iff by blast
qed

lemma prefix_take: "prefix g t \<Longrightarrow> g = take (length g) t"
  by (auto simp: prefix_def)

lemma no_straddle:
  assumes s: "s = x0 @ M @ E @ y"
    and followed: "\<forall>k\<le>length s. prefix M (drop k s) \<longrightarrow> prefix (M @ E) (drop k s)"
    and m: "s = pre @ G @ post" and post: "post = [] \<or> hd post = cl"
    and op: "op \<in> set G" "op \<notin> set M" "op \<notin> set E" and cl: "cl \<notin> set E"
    and j: "j < length (x0 @ M)" and p: "prefix G (drop j s)"
  shows "j + length G \<le> length (x0 @ M) \<or> length (x0 @ M) + length E \<le> j + length G"
proof (rule ccontr)
  assume "\<not> ?thesis"
  then have lo: "length x0 + length M < j + length G"
    and hi: "j + length G < length x0 + length M + length E" by simp_all
  from p have G: "G = take (length G) (drop j s)" by (rule prefix_take)
  have jx: "j < length x0"
  proof (rule ccontr)
    assume "\<not> j < length x0"
    then have ge: "length x0 \<le> j" by simp
    then have "drop j s = drop (j - length x0) (M @ E @ y)" unfolding s by simp
    with G have "G = take (length G) (drop (j - length x0) ((M @ E) @ y))" by simp
    also have "\<dots> = take (length G) (drop (j - length x0) (M @ E))"
      using hi ge by simp
    finally have "set G \<subseteq> set (M @ E)"
      by (metis set_take_subset set_drop_subset subset_trans)
    with op show False by auto
  qed
  define n where "n = j + length G - (length x0 + length M)"
  have n: "0 < n" "n < length E" using lo hi by (simp_all add: n_def)
  have "drop j s = drop j x0 @ M @ E @ y" unfolding s using jx by simp
  with G have "G = take (length G) (drop j x0 @ M @ E @ y)" by simp
  also have "\<dots> = drop j x0 @ M @ take n E" using lo hi jx by (simp add: n_def add.commute)
  finally have G': "G = drop j x0 @ M @ take n E" .
  define k where "k = length pre + (length x0 - j)"
  have "s = (pre @ drop j x0) @ M @ take n E @ post" unfolding m by (subst G') simp
  moreover have "length (pre @ drop j x0) = k" by (simp add: k_def)
  ultimately have d: "drop k s = M @ take n E @ post" and kl: "k \<le> length s"
    by (metis append_eq_conv_conj, metis le_add1 length_append)
  note kl
  moreover have "prefix M (drop k s)" unfolding d by simp
  ultimately have "prefix (M @ E) (drop k s)" using followed by blast
  then have "prefix E (take n E @ post)" unfolding d by simp
  then have "prefix (take n E @ drop n E) (take n E @ post)" by simp
  then have pd: "prefix (drop n E) post" by (simp only: same_prefix_prefix)
  have ne: "drop n E \<noteq> []" using n by simp
  with pd have "post \<noteq> []" by auto
  moreover from pd ne have "hd post = hd (drop n E)"
    by (metis hd_append2 prefix_def)
  moreover have "hd (drop n E) \<in> set E" using ne by (metis hd_in_set in_set_dropD)
  ultimately show False using post cl by auto
qed

lemma contains_skip:
  assumes "w \<noteq> []" and "hd w \<notin> set a"
  shows "contains w (a @ b) \<Longrightarrow> contains w b"
  using assms(2)
proof (induction a)
  case Nil
  then show ?case by simp
next
  case (Cons c a)
  from assms(1) obtain d ds where w: "w = d # ds" by (cases w) auto
  with Cons(3) have "d \<noteq> c" by auto
  with w have "\<not> prefix w (c # a @ b)" by simp
  with Cons(2) have "contains w (a @ b)" by simp
  moreover from Cons(3) have "hd w \<notin> set a" by simp
  ultimately show ?case using Cons(1) by simp
qed

lemma contains_set: "contains w s \<Longrightarrow> set w \<subseteq> set s"
  by (erule containsE) auto

lemma file_ref_entry_chars:
  assumes "set fu \<subseteq> set ''0123456789ABCDEF''"
  shows "file_ref_entry fu \<noteq> []"
    and "hd (file_ref_entry fu) \<notin> set file_ref_marker"
    and "last (file_ref_entry fu) \<notin> set file_ref_marker"
    and "\<not> contains file_ref_marker (file_ref_entry fu)"
    and "CHR ''('' \<notin> set (file_ref_entry fu)"
    and "CHR '')'' \<notin> set (file_ref_entry fu)"
proof -
  show "file_ref_entry fu \<noteq> []" by (simp add: file_ref_entry_def)
  show "hd (file_ref_entry fu) \<notin> set file_ref_marker"
    by (simp add: file_ref_entry_def file_ref_marker_def nl_def)
  show "last (file_ref_entry fu) \<notin> set file_ref_marker"
    by (simp add: file_ref_entry_def file_ref_marker_def)
  show "CHR ''('' \<notin> set (file_ref_entry fu)"
    using assms by (auto simp: file_ref_entry_def nl_def tab_def dquote_def)
  show "CHR '')'' \<notin> set (file_ref_entry fu)"
    using assms by (auto simp: file_ref_entry_def nl_def tab_def dquote_def)
  let ?tail = "'' /* ExportService.swift */ = {isa = PBXFileReference; lastKnownFileType = sourcecode.swift; path = ExportService.swift; sourceTree = '' @
     [dquote] @ ''<group>'' @ [dquote] @ ''; };''"
  have e: "file_ref_entry fu = ([nl, tab, tab] @ fu) @ ?tail" by (simp add: file_ref_entry_def)
  have h: "hd file_ref_marker \<notin> set ([nl, tab, tab] @ fu)"
    using assms by (auto simp: file_ref_marker_def nl_def tab_def)
  have n: "file_ref_marker \<noteq> []" by (simp add: file_ref_marker_def)
  have t: "\<not> contains file_ref_marker ?tail" by code_simp
  show "\<not> contains file_ref_marker (file_ref_entry fu)"
    unfolding e using contains_skip[OF n h] t by blast
qed

lemma file_ref_group:
  assumes "re_search file_ref_section_pattern c = Some m"
  shows "group1 c m = file_ref_marker" and "contains file_ref_marker c"
proof -
  from re_search_group1E[OF closes_file_ref assms] obtain pre post where
    c: "c = pre @ group1 c m @ post"
    and r: "rmatch file_ref_section_pattern (group1 c m @ post) 0 (0, 0) =
           Some (length (group1 c m), 0, length (group1 c m))" by metis
  have p: "file_ref_section_pattern = GroupOpen # lit file_ref_marker @ [GroupClose]"
    by (simp add: file_ref_section_pattern_def file_ref_marker_def)
  from r have "rmatch (lit file_ref_marker @ [GroupClose]) (group1 c m @ post) 0 (0, 0) =
           Some (length (group1 c m), 0, length (group1 c m))" unfolding p by simp
  then have pf: "prefix file_ref_marker (group1 c m @ post)"
    and l: "length (group1 c m) = length file_ref_marker"
    by (simp_all add: rmatch_lit split: if_splits)
  from pf l show g: "group1 c m = file_ref_marker"
    by (metis append_eq_append_conv prefix_def)
  from c show "contains file_ref_marker c" unfolding g by (metis containsI)
qed

lemma sources_group:
  assumes "re_search sources_phase_pattern c = Some m"
  obtains pre post where "c = pre @ group1 c m @ post"
    and "post = [] \<or> hd post = CHR '')''"
    and "CHR ''('' \<in> set (group1 c m)"
proof -
  from re_search_group1E[OF closes_sources assms] obtain pre post where
    c: "c = pre @ group1 c m @ post"
    and r: "rmatch sources_phase_pattern (group1 c m @ post) 0 (0, 0) =
           Some (length (group1 c m), 0, length (group1 c m))" by metis
  have e: "ends_at (CHR '')'') sources_phase_pattern"
    by (simp add: sources_phase_pattern_def lit_def)
  have o: "One (Chr (CHR ''('')) \<in> set sources_phase_pattern"
    by (simp add: sources_phase_pattern_def lit_def)
  from rmatch_ends_at[OF e r] have p: "post = [] \<or> hd post = CHR '')''"
    by (auto simp: nth_append hd_conv_nth)
  from rmatch_has_char[OF o r] have "CHR ''('' \<in> set (group1 c m)" by simp
  with c p show ?thesis by (rule that)
qed

lemma file_ref_entry_survives:
  assumes hex: "set fu \<subseteq> set ''0123456789ABCDEF''"
    and found: "re_search file_ref_section_pattern c \<noteq> None"
  shows "contains (file_ref_entry fu) (add_sources_child bu (add_file_ref fu c))"
proof -
  let ?M = file_ref_marker and ?E = "file_ref_entry fu"
  note ch = file_ref_entry_chars[OF hex]
  have Mn: "?M \<noteq> []" by (simp add: file_ref_marker_def)
  have Mo: "CHR ''('' \<notin> set ?M" by (simp add: file_ref_marker_def)
  from found obtain m where m: "re_search file_ref_section_pattern c = Some m" by auto
  note g = file_ref_group[OF m]
  define c3 where "c3 = replace_scan ?M (?M @ ?E) c"
  have a3: "add_file_ref fu c = c3"
    using m g(1) Mn by (simp add: add_file_ref_def str_replace_def c3_def)
  from replace_scan_contains[OF Mn g(2), of ?E] have "contains (?M @ ?E) c3"
    unfolding c3_def .
  then obtain x0 y where "c3 = x0 @ (?M @ ?E) @ y" by (rule containsE)
  then have s: "c3 = x0 @ ?M @ ?E @ y" by simp
  then have s': "c3 = (x0 @ ?M) @ ?E @ y" by simp
  have fol: "\<forall>k\<le>length c3. prefix ?M (drop k c3) \<longrightarrow> prefix (?M @ ?E) (drop k c3)"
    unfolding c3_def using replace_scan_followed[OF Mn ch(1,2,3,4)] by blast
  show ?thesis
  proof (cases "re_search sources_phase_pattern c3")
    case None
    then have "add_sources_child bu c3 = c3" by (simp add: add_sources_child_def)
    moreover have "contains ?E c3" by (subst s') (rule containsI)
    ultimately show ?thesis unfolding a3 by simp
  next
    case (Some m4)
    let ?G = "group1 c3 m4"
    from sources_group[OF Some] obtain pre post where
      c: "c3 = pre @ ?G @ post" and p: "post = [] \<or> hd post = CHR '')''"
      and o: "CHR ''('' \<in> set ?G" by metis
    from o have Gn: "?G \<noteq> []" by auto
    have nc: "\<not> contains ?G ?E"
    proof
      assume "contains ?G ?E"
      from contains_set[OF this] o ch(5) show False by auto
    qed
    have "\<forall>j<length (x0 @ ?M). prefix ?G (drop j ((x0 @ ?M) @ ?E @ y)) \<longrightarrow>
        j + length ?G \<le> length (x0 @ ?M) \<or> length (x0 @ ?M) + length ?E \<le> j + length ?G"
    proof (intro allI impI)
      fix j assume j: "j < length (x0 @ ?M)" and "prefix ?G (drop j ((x0 @ ?M) @ ?E @ y))"
      then have pj: "prefix ?G (drop j c3)" by (simp only: s'[symmetric])
      from no_straddle[OF s fol c p o Mo ch(5) ch(6) j pj]
      show "j + length ?G \<le> length (x0 @ ?M) \<or> length (x0 @ ?M) + length ?E \<le> j + length ?G" .
    qed
    from replace_scan_keeps_block[OF Gn nc this, of "sources_child bu"]
    have "contains ?E (replace_scan ?G (?G @ sources_child bu) c3)"
      by (simp only: s'[symmetric])
    moreover have "add_sources_child bu c3 = replace_scan ?G (?G @ sources_child bu) c3"
      using Some Gn by (simp add: add_sources_child_def Let_def str_replace_def)
    ultimately show ?thesis unfolding a3 by simp
  qed
qed

section \<open>Properties of the two scripts\<close>

subsection \<open>The missing Services group\<close>

text \<open>
  Claim C2. When the text of the project file has no match of the Services pattern,
  \<^verbatim>\<open>add_export_service.py\<close> ends with exit status 1, writes nothing, and the file
  on disk is what it was.
\<close>

theorem missing_services_group_aborts:
  assumes "re_search services_pattern (disk w) = None"
  shows "fst (add_export_service u1 u2 w) = 1 \<and>
         disk (snd (add_export_service u1 u2 w)) = disk w \<and>
         writes (snd (add_export_service u1 u2 w)) = writes w"
  using assms by (simp add: add_export_service_def Let_def)

theorem missing_services_group_aborts_witness:
  "re_search services_pattern
     (disk \<lparr>disk = ''// !$*UTF8*$! { objects = { }; }'', console = [], writes = []\<rparr>) = None \<and>
   fst (add_export_service 1 2
     \<lparr>disk = ''// !$*UTF8*$! { objects = { }; }'', console = [], writes = []\<rparr>) = 1 \<and>
   disk (snd (add_export_service 1 2
     \<lparr>disk = ''// !$*UTF8*$! { objects = { }; }'', console = [], writes = []\<rparr>)) =
     ''// !$*UTF8*$! { objects = { }; }'' \<and>
   writes (snd (add_export_service 1 2
     \<lparr>disk = ''// !$*UTF8*$! { objects = { }; }'', console = [], writes = []\<rparr>)) = []"
proof -
  have h: "re_search services_pattern
     (disk \<lparr>disk = ''// !$*UTF8*$! { objects = { }; }'', console = [], writes = []\<rparr>) = None"
    by code_simp
  from missing_services_group_aborts[OF h, of 1 2] h show ?thesis by simp
qed

subsection \<open>Writes to the project file\<close>



subsection \<open>Secondary anchors that are absent\<close>




subsection \<open>The guard of the file-reference step\<close>

text \<open>
  Claim C6. When the PBXFileReference section of the document (group 1 of the section
  pattern) contains \<^verbatim>\<open>Debug.xcconfig\<close>, step 1 of \<^verbatim>\<open>integrate_xcconfig.py\<close>
  inserts nothing: it returns the document unchanged.
\<close>

theorem debug_xcconfig_guard:
  assumes "re_search file_ref_section_re content = Some file_ref_section"
    and "contains ''Debug.xcconfig'' (group1 content file_ref_section)"
  shows "add_file_references content = content"
  using assms by (simp add: add_file_references_def Let_def)

theorem debug_xcconfig_guard_witness:
  "re_search file_ref_section_re guarded_doc =
     Some \<lparr>m_start = 0, m_end = 125, g1_start = 36, g1_end = 91\<rparr> \<and>
   contains ''Debug.xcconfig''
     (group1 guarded_doc \<lparr>m_start = 0, m_end = 125, g1_start = 36, g1_end = 91\<rparr>) \<and>
   add_file_references guarded_doc = guarded_doc"
proof -
  have h1: "re_search file_ref_section_re guarded_doc =
     Some \<lparr>m_start = 0, m_end = 125, g1_start = 36, g1_end = 91\<rparr>" by code_simp
  have h2: "contains ''Debug.xcconfig''
     (group1 guarded_doc \<lparr>m_start = 0, m_end = 125, g1_start = 36, g1_end = 91\<rparr>)"
    by code_simp
  from debug_xcconfig_guard[OF h1 h2] h1 h2 show ?thesis by simp
qed

subsection \<open>Byte preservation\<close>


subsection \<open>Replacement of every occurrence\<close>

text \<open>
  Claim C10. The four insertions of \<^verbatim>\<open>add_export_service.py\<close> replace the matched
  text with \<^verbatim>\<open>str.replace\<close>, which has no count: when the matched text occurs at
  exactly one offset \<open>k\<close> of the document, the new text is spliced in right after that
  occurrence and nowhere else; and there is a document, \<open>twice_doc\<close>, in which the
  matched text occurs at two offsets and the new text is spliced in after both.
\<close>

theorem replace_splices_every_occurrence:
  "(occurrences (group1 c m) c = [k] \<longrightarrow>
      add_services_child fu c m =
        take (k + length (group1 c m)) c @ services_child fu @
        drop (k + length (group1 c m)) c) \<and>
   (re_search build_file_section_pattern c = Some m \<and> occurrences (group1 c m) c = [k] \<longrightarrow>
      add_build_file fu bu c =
        take (k + length (group1 c m)) c @ build_file_entry fu bu @
        drop (k + length (group1 c m)) c) \<and>
   (re_search file_ref_section_pattern c = Some m \<and> occurrences (group1 c m) c = [k] \<longrightarrow>
      add_file_ref fu c =
        take (k + length (group1 c m)) c @ file_ref_entry fu @
        drop (k + length (group1 c m)) c) \<and>
   (re_search sources_phase_pattern c = Some m \<and> occurrences (group1 c m) c = [k] \<longrightarrow>
      add_sources_child bu c =
        take (k + length (group1 c m)) c @ sources_child bu @
        drop (k + length (group1 c m)) c) \<and>
   occurrences ''/* Begin PBXBuildFile section */'' twice_doc = [0, 33] \<and>
   add_build_file ''F1'' ''B1'' twice_doc =
     ''/* Begin PBXBuildFile section */'' @ build_file_entry ''F1'' ''B1'' @ '' '' @
     ''/* Begin PBXBuildFile section */'' @ build_file_entry ''F1'' ''B1''"
proof (intro conjI impI)
  assume "occurrences (group1 c m) c = [k]"
  from str_replace_unique[OF this] show "add_services_child fu c m =
        take (k + length (group1 c m)) c @ services_child fu @
        drop (k + length (group1 c m)) c"
    by (simp add: add_services_child_def Let_def)
next
  assume "re_search build_file_section_pattern c = Some m \<and> occurrences (group1 c m) c = [k]"
  then have m: "re_search build_file_section_pattern c = Some m"
    and o: "occurrences (group1 c m) c = [k]" by simp_all
  from str_replace_unique[OF o] m show "add_build_file fu bu c =
        take (k + length (group1 c m)) c @ build_file_entry fu bu @
        drop (k + length (group1 c m)) c"
    by (simp add: add_build_file_def)
next
  assume "re_search file_ref_section_pattern c = Some m \<and> occurrences (group1 c m) c = [k]"
  then have m: "re_search file_ref_section_pattern c = Some m"
    and o: "occurrences (group1 c m) c = [k]" by simp_all
  from str_replace_unique[OF o] m show "add_file_ref fu c =
        take (k + length (group1 c m)) c @ file_ref_entry fu @
        drop (k + length (group1 c m)) c"
    by (simp add: add_file_ref_def)
next
  assume "re_search sources_phase_pattern c = Some m \<and> occurrences (group1 c m) c = [k]"
  then have m: "re_search sources_phase_pattern c = Some m"
    and o: "occurrences (group1 c m) c = [k]" by simp_all
  from str_replace_unique[OF o] m show "add_sources_child bu c =
        take (k + length (group1 c m)) c @ sources_child bu @
        drop (k + length (group1 c m)) c"
    by (simp add: add_sources_child_def Let_def)
next
  show "occurrences ''/* Begin PBXBuildFile section */'' twice_doc = [0, 33]" by code_simp
next
  show "add_build_file ''F1'' ''B1'' twice_doc =
     ''/* Begin PBXBuildFile section */'' @ build_file_entry ''F1'' ''B1'' @ '' '' @
     ''/* Begin PBXBuildFile section */'' @ build_file_entry ''F1'' ''B1''" by code_simp
qed

theorem replace_splices_every_occurrence_witness:
  "occurrences (group1 services_only_doc \<lparr>m_start = 0, m_end = 68, g1_start = 0, g1_end = 68\<rparr>)
     services_only_doc = [0] \<and>
   add_services_child ''F1'' services_only_doc
       \<lparr>m_start = 0, m_end = 68, g1_start = 0, g1_end = 68\<rparr> =
     take (0 + length (group1 services_only_doc
        \<lparr>m_start = 0, m_end = 68, g1_start = 0, g1_end = 68\<rparr>)) services_only_doc @
     services_child ''F1'' @
     drop (0 + length (group1 services_only_doc
        \<lparr>m_start = 0, m_end = 68, g1_start = 0, g1_end = 68\<rparr>)) services_only_doc"
proof -
  have h: "occurrences (group1 services_only_doc
      \<lparr>m_start = 0, m_end = 68, g1_start = 0, g1_end = 68\<rparr>) services_only_doc = [0]"
    by code_simp
  from replace_splices_every_occurrence[of services_only_doc
      "\<lparr>m_start = 0, m_end = 68, g1_start = 0, g1_end = 68\<rparr>" 0 "''F1''" "''B1''"] h
  show ?thesis by blast
qed

subsection \<open>Running a script a second time\<close>




subsection \<open>Identifiers\<close>




subsection \<open>Base configuration references\<close>




subsection \<open>References to the new entries\<close>

text \<open>
  Claim C3 says that in the document written every identifier that a new entry refers
  to has its entry, also when the marker of a section is absent and the insertion into
  that section is skipped. A document with a Services group and a PBXBuildFile section
  but no PBXFileReference section gets the new child of the Services group and the new
  PBXBuildFile entry, both of which name the new file reference, and no PBXFileReference
  entry at all. In the same way \<^verbatim>\<open>integrate_xcconfig.py\<close> gives the Debug block a
  \<^verbatim>\<open>baseConfigurationReference\<close> to \<^verbatim>\<open>A10000F1000\<close> in a document that has no
  PBXFileReference section, where step 1 has added no entry for it.
\<close>

theorem dangling_reference_counterexample:
  "fst (add_export_service uuid_a uuid_b \<lparr>disk = no_file_ref_doc, console = [], writes = []\<rparr>) = 0 \<and>
   contains (services_child (token uuid_a))
     (disk (snd (add_export_service uuid_a uuid_b
        \<lparr>disk = no_file_ref_doc, console = [], writes = []\<rparr>))) \<and>
   contains (build_file_entry (token uuid_a) (token uuid_b))
     (disk (snd (add_export_service uuid_a uuid_b
        \<lparr>disk = no_file_ref_doc, console = [], writes = []\<rparr>))) \<and>
   \<not> contains ''isa = PBXFileReference''
     (disk (snd (add_export_service uuid_a uuid_b
        \<lparr>disk = no_file_ref_doc, console = [], writes = []\<rparr>))) \<and>
   token uuid_a \<notin> set (entry_ids (disk (snd (add_export_service uuid_a uuid_b
        \<lparr>disk = no_file_ref_doc, console = [], writes = []\<rparr>)))) \<and>
   contains debug_base_ref (integrate_patch debug_block_doc) \<and>
   \<not> contains ''isa = PBXFileReference'' (integrate_patch debug_block_doc) \<and>
   debug_xcconfig_ref \<notin> set (entry_ids (integrate_patch debug_block_doc))"
  by code_simp

text \<open>
  Claim C3, amended. When \<^verbatim>\<open>add_export_service.py\<close> finds the Services group and,
  when its third directive runs, the marker \<^verbatim>\<open>/* Begin PBXFileReference section */\<close>
  (that is, the marker is in the document the first two insertions have produced), the
  run ends with status 0 and the document written contains the PBXFileReference entry of
  the new identifier, the one that the new child of the Services group and the
  \<^verbatim>\<open>fileRef\<close> of the new PBXBuildFile entry name: the insertion into the Sources
  build phase, which comes after, does not break the entry. When the marker is absent
  the entry is not inserted and these references have no entry.
\<close>

theorem file_reference_defined:
  assumes "re_search services_pattern (disk w) = Some services_match"
    and "re_search file_ref_section_pattern
           (add_build_file (token u1) (token u2)
              (add_services_child (token u1) (disk w) services_match)) \<noteq> None"
  shows "fst (add_export_service u1 u2 w) = 0 \<and>
         contains (file_ref_entry (token u1)) (disk (snd (add_export_service u1 u2 w)))"
proof -
  have "set (token u1) \<subseteq> set ''0123456789ABCDEF''" using token_format[of u1] by simp
  from file_ref_entry_survives[OF this assms(2), of "token u2"] assms(1)
  show ?thesis by (simp add: add_export_service_def export_patch_def Let_def)
qed

theorem file_reference_defined_witness:
  "re_search services_pattern (disk \<lparr>disk = full_doc, console = [], writes = []\<rparr>) =
     Some \<lparr>m_start = 136, m_end = 204, g1_start = 136, g1_end = 204\<rparr> \<and>
   re_search file_ref_section_pattern
     (add_build_file (token uuid_a) (token uuid_b)
        (add_services_child (token uuid_a) (disk \<lparr>disk = full_doc, console = [], writes = []\<rparr>)
           \<lparr>m_start = 136, m_end = 204, g1_start = 136, g1_end = 204\<rparr>)) \<noteq> None \<and>
   fst (add_export_service uuid_a uuid_b \<lparr>disk = full_doc, console = [], writes = []\<rparr>) = 0 \<and>
   contains (file_ref_entry (token uuid_a))
     (disk (snd (add_export_service uuid_a uuid_b
        \<lparr>disk = full_doc, console = [], writes = []\<rparr>)))"
proof -
  have h1: "re_search services_pattern (disk \<lparr>disk = full_doc, console = [], writes = []\<rparr>) =
     Some \<lparr>m_start = 136, m_end = 204, g1_start = 136, g1_end = 204\<rparr>" by code_simp
  have h2: "re_search file_ref_section_pattern
     (add_build_file (token uuid_a) (token uuid_b)
        (add_services_child (token uuid_a) (disk \<lparr>disk = full_doc, console = [], writes = []\<rparr>)
           \<lparr>m_start = 136, m_end = 204, g1_start = 136, g1_end = 204\<rparr>)) \<noteq> None"
    by code_simp
  from file_reference_defined[OF h1 h2] h1 h2 show ?thesis by (intro conjI) simp_all
qed

end
